theory Spec2Isabelle
  imports Complex_Main "HOL-Library.Word"
begin

unbundle bit_operations_syntax

section \<open>Background service worker: result cache and dispatch\<close>

subsection \<open>Values\<close>

text \<open>
  A JavaScript string is a sequence of UTF-16 code units; \<open>length\<close> and
  \<open>charCodeAt\<close> count and read code units.  Page text, image data URLs and host names
  are modelled as lists of code units.  Fixed ASCII labels (category names, filtering
  levels, tag and class names) are Isabelle strings.
\<close>

type_synonym jsstring = "nat list"

text \<open>
  The JSON object returned by the classification backend.  A missing \<open>confidence\<close> or
  \<open>flagged_categories\<close> property reads as \<open>undefined\<close> (\<open>None\<close>).  Numbers are
  compared by their exact value.
\<close>

record analysisResult =
  is_safe :: bool
  confidence :: "rat option"
  flagged_categories :: "string list option"

datatype contentType = TextType | ImageType

subsection \<open>\<open>CONFIG\<close>\<close>

definition CACHE_DURATION :: int where
  "CACHE_DURATION = 5 * 60 * 1000"

definition MAX_CACHE_SIZE :: nat where
  "MAX_CACHE_SIZE = 1000"

subsection \<open>The JavaScript \<open>Map\<close>\<close>

text \<open>
  A \<open>Map\<close> iterates in insertion order.  \<open>set\<close> on a key that is present
  replaces the value and keeps the key's position; on an absent key it appends.
  \<open>delete\<close> removes the key.  A \<open>Map\<close> holds each key once.
\<close>

type_synonym ('k, 'v) jsmap = "('k \<times> 'v) list"

primrec map_get :: "'k \<Rightarrow> ('k, 'v) jsmap \<Rightarrow> 'v option" where
  "map_get k [] = None"
| "map_get k (p # ps) = (if fst p = k then Some (snd p) else map_get k ps)"

primrec map_set :: "'k \<Rightarrow> 'v \<Rightarrow> ('k, 'v) jsmap \<Rightarrow> ('k, 'v) jsmap" where
  "map_set k v [] = [(k, v)]"
| "map_set k v (p # ps) = (if fst p = k then (k, v) # ps else p # map_set k v ps)"

primrec map_delete :: "'k \<Rightarrow> ('k, 'v) jsmap \<Rightarrow> ('k, 'v) jsmap" where
  "map_delete k [] = []"
| "map_delete k (p # ps) = (if fst p = k then map_delete k ps else p # map_delete k ps)"

definition map_size :: "('k, 'v) jsmap \<Rightarrow> nat" where
  "map_size m = length m"

definition map_keys :: "('k, 'v) jsmap \<Rightarrow> 'k list" where
  "map_keys m = map fst m"

text \<open>\<open>m.keys().next().value\<close>: the first key in insertion order, \<open>undefined\<close> on an empty map.\<close>

definition map_first_key :: "('k, 'v) jsmap \<Rightarrow> 'k option" where
  "map_first_key m = (case m of [] \<Rightarrow> None | p # _ \<Rightarrow> Some (fst p))"

definition map_wf :: "('k, 'v) jsmap \<Rightarrow> bool" where
  "map_wf m = distinct (map_keys m)"

subsection \<open>\<open>getFromCache\<close>, \<open>setCache\<close>, \<open>hashString\<close>\<close>

record cacheEntry =
  data :: analysisResult
  timestamp :: int

text \<open>
  \<open>getFromCache(key)\<close> at time \<open>now = Date.now()\<close>: the cached data when the entry exists
  and is younger than \<open>CACHE_DURATION\<close>; otherwise the key is deleted and \<open>null\<close> is
  returned.  The function returns the looked-up value and the cache it leaves.
\<close>

definition getFromCache ::
  "int \<Rightarrow> 'k \<Rightarrow> ('k, cacheEntry) jsmap \<Rightarrow> analysisResult option \<times> ('k, cacheEntry) jsmap" where
  "getFromCache now key cache =
     (case map_get key cache of
        Some cached \<Rightarrow>
          if now - timestamp cached < CACHE_DURATION then (Some (data cached), cache)
          else (None, map_delete key cache)
      | None \<Rightarrow> (None, map_delete key cache))"

definition setCache ::
  "int \<Rightarrow> 'k \<Rightarrow> analysisResult \<Rightarrow> ('k, cacheEntry) jsmap \<Rightarrow> ('k, cacheEntry) jsmap" where
  "setCache now key d cache =
     (let cache1 =
        (if map_size cache \<ge> MAX_CACHE_SIZE then
           (case map_first_key cache of
              Some firstKey \<Rightarrow> map_delete firstKey cache
            | None \<Rightarrow> cache)
         else cache)
      in map_set key \<lparr>data = d, timestamp = now\<rparr> cache1)"

text \<open>
  \<open>hashString\<close>: \<open>hash = ((hash << 5) - hash) + char; hash = hash & hash\<close> for each code
  unit.  The bitwise operators work on 32-bit integers, so the running hash is a
  32-bit word; \<open>toString\<close> prints its signed value.
\<close>

definition hashString :: "jsstring \<Rightarrow> int" where
  "hashString str =
     sint (foldl (\<lambda>hash char. (push_bit 5 hash - hash) + word_of_nat char) (0 :: 32 word) str)"

subsection \<open>Messages, the gateway and the worker's state\<close>

text \<open>The \<open>data\<close> of an \<open>ANALYZE_TEXT\<close> and of an \<open>ANALYZE_IMAGE\<close> message.\<close>

record textRequest =
  "text" :: jsstring
  threshold :: "rat option"
  ageGroup :: "string option"

record imageRequest =
  imageData :: jsstring
  threshold :: "rat option"
  ageGroup :: "string option"

text \<open>
  The cache key \<open>`text:${hashString(text)}:${threshold}:${ageGroup}`\<close> is kept as the
  tuple of its four parts (the kind prefix, the hash, the threshold and the age group),
  which the template string determines as long as the age group holds no colon.
\<close>

type_synonym cacheKey = "contentType \<times> int \<times> rat option \<times> string option"

text \<open>A gateway invocation: the endpoint and the JSON body (payload, threshold, age\_group).\<close>

type_synonym apiRequest = "string \<times> jsstring \<times> rat option \<times> string option"

text \<open>
  What \<open>fetch\<close> and \<open>response.json()\<close> deliver: a rejection (network error), or an HTTP
  status with the parsed body (\<open>None\<close> when the body does not parse).
\<close>

datatype fetchOutcome = Rejected | Responded nat "analysisResult option"

datatype jsError = ApiRequestFailed nat | FetchError | JsonError | TypeError | HierarchyRequestError

definition response_ok :: "nat \<Rightarrow> bool" where
  "response_ok status = (200 \<le> status \<and> status \<le> 299)"

text \<open>\<open>makeApiRequest\<close> after its \<open>await fetch(...)\<close>: throws or returns the parsed body.\<close>

definition makeApiRequest :: "fetchOutcome \<Rightarrow> jsError + analysisResult" where
  "makeApiRequest outcome =
     (case outcome of
        Rejected \<Rightarrow> Inl FetchError
      | Responded status body \<Rightarrow>
          if \<not> response_ok status then Inl (ApiRequestFailed status)
          else (case body of None \<Rightarrow> Inl JsonError | Some result \<Rightarrow> Inr result))"

text \<open>
  The module state of the service worker: \<open>analysisCache\<close>, \<open>pendingRequests\<close> (declared
  beside the cache), the requests issued to the gateway so far, in order, and the
  counters kept in \<open>chrome.storage.local\<close>.
\<close>

record worker =
  analysisCache :: "(cacheKey, cacheEntry) jsmap"
  pendingRequests :: "(cacheKey, nat) jsmap"
  fetched :: "apiRequest list"
  stats :: "(string, int) jsmap"

definition updateStats :: "string \<Rightarrow> worker \<Rightarrow> worker" where
  "updateStats statName w =
     (let st = stats w;
          n = (case map_get statName st of Some v \<Rightarrow> v | None \<Rightarrow> 0) + 1;
          total = (case map_get ''totalScanned'' st of Some v \<Rightarrow> v | None \<Rightarrow> 0) + 1
      in w\<lparr>stats := map_set ''totalScanned'' total (map_set statName n st)\<rparr>)"

datatype response = Success analysisResult | Failure jsError

text \<open>
  A handler runs until it has called \<open>sendResponse\<close>, or until it is suspended at
  \<open>await makeApiRequest(...)\<close> with its request issued; it is resumed with the outcome.
\<close>

datatype progress = Replied response | Awaiting cacheKey

definition handleTextAnalysis_begin :: "int \<Rightarrow> textRequest \<Rightarrow> worker \<Rightarrow> progress \<times> worker" where
  "handleTextAnalysis_begin now d w =
     (let cacheKey = (TextType, hashString (text d), textRequest.threshold d, textRequest.ageGroup d);
          (cached, cache1) = getFromCache now cacheKey (analysisCache w);
          w1 = w\<lparr>analysisCache := cache1\<rparr>
      in case cached of
           Some result \<Rightarrow> (Replied (Success result), w1)
         | None \<Rightarrow>
             (Awaiting cacheKey,
              w1\<lparr>fetched := fetched w1 @
                     [(''/analyze/text'', text d, textRequest.threshold d, textRequest.ageGroup d)]\<rparr>))"

definition handleTextAnalysis_resume ::
  "int \<Rightarrow> cacheKey \<Rightarrow> fetchOutcome \<Rightarrow> worker \<Rightarrow> response \<times> worker" where
  "handleTextAnalysis_resume now cacheKey outcome w =
     (case makeApiRequest outcome of
        Inl error \<Rightarrow> (Failure error, w)
      | Inr result \<Rightarrow>
          (let w1 = w\<lparr>analysisCache := setCache now cacheKey result (analysisCache w)\<rparr>;
               w2 = updateStats ''text_analyzed'' w1;
               w3 = (if \<not> is_safe result then updateStats ''content_blocked'' w2 else w2)
           in (Success result, w3)))"

definition handleImageAnalysis_begin :: "int \<Rightarrow> imageRequest \<Rightarrow> worker \<Rightarrow> progress \<times> worker" where
  "handleImageAnalysis_begin now d w =
     (let cacheKey = (ImageType, hashString (imageData d), imageRequest.threshold d, imageRequest.ageGroup d);
          (cached, cache1) = getFromCache now cacheKey (analysisCache w);
          w1 = w\<lparr>analysisCache := cache1\<rparr>
      in case cached of
           Some result \<Rightarrow> (Replied (Success result), w1)
         | None \<Rightarrow>
             (Awaiting cacheKey,
              w1\<lparr>fetched := fetched w1 @
                     [(''/analyze/image'', imageData d, imageRequest.threshold d, imageRequest.ageGroup d)]\<rparr>))"

definition handleImageAnalysis_resume ::
  "int \<Rightarrow> cacheKey \<Rightarrow> fetchOutcome \<Rightarrow> worker \<Rightarrow> response \<times> worker" where
  "handleImageAnalysis_resume now cacheKey outcome w =
     (case makeApiRequest outcome of
        Inl error \<Rightarrow> (Failure error, w)
      | Inr result \<Rightarrow>
          (let w1 = w\<lparr>analysisCache := setCache now cacheKey result (analysisCache w)\<rparr>;
               w2 = updateStats ''images_analyzed'' w1;
               w3 = (if \<not> is_safe result then updateStats ''content_blocked'' w2 else w2)
           in (Success result, w3)))"

text \<open>
  Calls that overlap: each \<open>ANALYZE_TEXT\<close> or \<open>ANALYZE_IMAGE\<close> message starts its
  handler, at its own time, before the gateway has answered any of the earlier ones.
\<close>

datatype call = AnalyzeText textRequest | AnalyzeImage imageRequest

definition cacheKeyOf :: "call \<Rightarrow> cacheKey" where
  "cacheKeyOf c =
     (case c of
        AnalyzeText d \<Rightarrow> (TextType, hashString (text d), textRequest.threshold d, textRequest.ageGroup d)
      | AnalyzeImage d \<Rightarrow>
          (ImageType, hashString (imageData d), imageRequest.threshold d, imageRequest.ageGroup d))"

definition onMessage_begin :: "int \<Rightarrow> call \<Rightarrow> worker \<Rightarrow> progress \<times> worker" where
  "onMessage_begin now c w =
     (case c of
        AnalyzeText d \<Rightarrow> handleTextAnalysis_begin now d w
      | AnalyzeImage d \<Rightarrow> handleImageAnalysis_begin now d w)"

text \<open>The handler of a call resumed with the gateway's outcome for it.\<close>

definition onMessage_resume :: "int \<Rightarrow> call \<Rightarrow> fetchOutcome \<Rightarrow> worker \<Rightarrow> response \<times> worker" where
  "onMessage_resume now c outcome w =
     (case c of
        AnalyzeText d \<Rightarrow> handleTextAnalysis_resume now (cacheKeyOf c) outcome w
      | AnalyzeImage d \<Rightarrow> handleImageAnalysis_resume now (cacheKeyOf c) outcome w)"

fun overlappingCalls :: "(int \<times> call) list \<Rightarrow> worker \<Rightarrow> worker" where
  "overlappingCalls [] w = w"
| "overlappingCalls ((now, c) # cs) w = overlappingCalls cs (snd (onMessage_begin now c w))"

section \<open>The page\<close>

subsection \<open>Elements, trees and selectors\<close>

text \<open>
  An element node with the properties the content script reads or writes.  \<open>nid\<close> is the
  identity of the node object: two references are the same element when they carry the
  same \<open>nid\<close>.  \<open>attributes\<close> holds the attributes other than \<open>class\<close>.
  \<open>getComputedStyle(e).display\<close> is the inline \<open>style.display\<close> when that is set and the
  style sheets' value otherwise.  \<open>src\<close>, \<open>srcset\<close>, \<open>width\<close> and \<open>height\<close> are
  \<open>None\<close> where the element has no such property or it is not a string or number
  (\<open>picture\<close>, \<open>svg\<close>).
\<close>

record element =
  nid :: nat
  tagName :: string
  classList :: "string list"
  attributes :: "(string, string) jsmap"
  title :: jsstring
  styleDisplay :: string
  sheetDisplay :: string
  computedVisibility :: string
  src :: "jsstring option"
  srcset :: "jsstring option"
  width :: "int option"
  height :: "int option"

datatype node = Element element "node list" | TextNode jsstring

fun nodeId :: "node \<Rightarrow> nat option" where
  "nodeId (Element e cs) = Some (nid e)"
| "nodeId (TextNode s) = None"

text \<open>\<open>node.textContent\<close>: the text of all descendant text nodes, in document order.\<close>

fun textContent :: "node \<Rightarrow> jsstring" where
  "textContent (Element e cs) = concat (map textContent cs)"
| "textContent (TextNode s) = s"

text \<open>
  The element nodes of a tree in document order, each with its chain of ancestors,
  nearest first.  The first argument is the chain above the tree's root.
\<close>

fun subtrees :: "element list \<Rightarrow> node \<Rightarrow> (element list \<times> element \<times> node list) list" where
  "subtrees anc (Element e cs) = (anc, e, cs) # concat (map (subtrees (e # anc)) cs)"
| "subtrees anc (TextNode s) = []"

text \<open>Writing a property of the element \<open>i\<close>: \<open>f\<close> is applied to the element with that identity.\<close>

definition applyTo :: "nat \<Rightarrow> (element \<Rightarrow> element) \<Rightarrow> element \<Rightarrow> element" where
  "applyTo i f e = (if nid e = i then f e else e)"

fun updateElement :: "nat \<Rightarrow> (element \<Rightarrow> element) \<Rightarrow> node \<Rightarrow> node" where
  "updateElement i f (Element e cs) = Element (applyTo i f e) (map (updateElement i f) cs)"
| "updateElement i f (TextNode s) = TextNode s"

text \<open>Taking the child subtrees rooted at \<open>i\<close> out of a tree, and putting \<open>new\<close> in their place.\<close>

fun removeNode :: "nat \<Rightarrow> node \<Rightarrow> node" where
  "removeNode i (Element e cs) =
     Element e (filter (\<lambda>c. nodeId c \<noteq> Some i) (map (removeNode i) cs))"
| "removeNode i (TextNode s) = TextNode s"

fun replaceNode :: "nat \<Rightarrow> node \<Rightarrow> node \<Rightarrow> node" where
  "replaceNode i new (Element e cs) =
     Element e (map (\<lambda>c. if nodeId c = Some i then new else replaceNode i new c) cs)"
| "replaceNode i new (TextNode s) = TextNode s"

text \<open>
  The selectors the content script uses: a compound of descendant combinators over
  simple selectors, written left to right as in the source (\<open>'.g .s .st'\<close> is
  \<open>[Class ''g'', Class ''s'', Class ''st'']\<close>).
\<close>

datatype simpleSelector = Tag string | Class string | HasAttribute string | Id string

type_synonym selector = "simpleSelector list"

definition matchesSimple :: "simpleSelector \<Rightarrow> element \<Rightarrow> bool" where
  "matchesSimple s e =
     (case s of
        Tag t \<Rightarrow> tagName e = t
      | Class c \<Rightarrow> c \<in> set (classList e)
      | HasAttribute a \<Rightarrow> map_get a (attributes e) \<noteq> None
      | Id v \<Rightarrow> map_get ''id'' (attributes e) = Some v)"

text \<open>The remaining compounds, innermost first, matched against the ancestors, nearest first.\<close>

fun matchesAncestors :: "simpleSelector list \<Rightarrow> element list \<Rightarrow> bool" where
  "matchesAncestors [] anc = True"
| "matchesAncestors (s # ss) [] = False"
| "matchesAncestors (s # ss) (a # anc) =
     (if matchesSimple s a then matchesAncestors ss anc else matchesAncestors (s # ss) anc)"

definition matches :: "selector \<Rightarrow> element list \<Rightarrow> element \<Rightarrow> bool" where
  "matches sel anc e =
     (case rev sel of
        [] \<Rightarrow> False
      | s # ss \<Rightarrow> matchesSimple s e \<and> matchesAncestors ss anc)"

definition matchesAny :: "selector list \<Rightarrow> element list \<Rightarrow> element \<Rightarrow> bool" where
  "matchesAny sels anc e = (\<exists>sel \<in> set sels. matches sel anc e)"

text \<open>
  \<open>root.querySelectorAll(selectors.join(','))\<close>: the descendants of \<open>root\<close> that match one
  of the selectors, in document order.  Ancestors above \<open>root\<close> take part in the match.
\<close>

definition querySelectorAll :: "selector list \<Rightarrow> element list \<Rightarrow> node \<Rightarrow> nat list" where
  "querySelectorAll sels anc tree =
     map (\<lambda>(a, e, cs). nid e) (filter (\<lambda>(a, e, cs). matchesAny sels a e) (tl (subtrees anc tree)))"

text \<open>\<open>e.closest(selectors)\<close> is not \<open>null\<close>: the element or one of its ancestors matches.\<close>

fun closestIn :: "selector list \<Rightarrow> element list \<Rightarrow> bool" where
  "closestIn sels [] = False"
| "closestIn sels (e # anc) = (matchesAny sels anc e \<or> closestIn sels anc)"

subsection \<open>The content script's state\<close>

text \<open>
  \<open>this.settings\<close> as \<open>GET_SETTINGS\<close> delivers it from the settings store: a property
  is \<open>None\<close> when the stored settings hold no such key and it reads as \<open>undefined\<close>.
\<close>

record settings =
  filteringLevel :: "string option"
  ageGroup :: "string option"
  allowlist :: "jsstring list option"

text \<open>
  An entry of \<open>scanQueue\<close>: \<open>{type: 'text', element, content, timestamp}\<close> or
  \<open>{type: 'image', element, timestamp}\<close>.
\<close>

datatype queueItem = TextItem nat jsstring int | ImageItem nat int

fun itemElement :: "queueItem \<Rightarrow> nat" where
  "itemElement (TextItem el content t) = el"
| "itemElement (ImageItem el t) = el"

text \<open>
  The click listeners the manipulator registers, with what their closures hold: on a
  replacement container (the container, the original element and the type), on a blurred
  element, and on the button that shows a hidden element (the button, the element and its
  former inline display).
\<close>

datatype listener =
    ReplacementActions nat nat contentType
  | RemoveBlur nat
  | ShowHidden nat nat string

text \<open>
  One record for the page and the two objects working on it.  The DOM is the document
  tree (its root is the \<open>Document\<close> node) together with the trees that are not attached
  to it; \<open>nextId\<close> is the identity the next created element gets.  \<open>blockedElements\<close>,
  \<open>replacementElements\<close> and the listeners belong to the \<open>DOMManipulator\<close>; \<open>scanQueue\<close>,
  \<open>isScanning\<close> and \<open>settings\<close> to the \<open>ContentScanner\<close>, with the number of
  \<open>setInterval\<close> and pending \<open>setTimeout\<close> registrations it has made.  The last three
  fields record effects: the elements pushed onto \<open>scanQueue\<close> so far, the messages sent
  to the service worker, and the \<open>ai-firewall-unsafe-content\<close> events dispatched.
\<close>

record page =
  hostname :: jsstring
  document :: node
  detached :: "node list"
  nextId :: nat
  blockedElements :: "nat set"
  replacementElements :: "(nat, nat) jsmap"
  clickListeners :: "(nat \<times> listener) list"
  scanQueue :: "queueItem list"
  isScanning :: bool
  settings :: "settings option"
  rescanIntervals :: nat
  queueTimeouts :: nat
  queued :: "nat list"
  outbox :: "call list"
  dispatched :: "(nat \<times> contentType \<times> analysisResult) list"

subsection \<open>DOM operations on the page\<close>

definition js :: "string \<Rightarrow> jsstring" where
  "js s = map of_char s"

definition lookupElement :: "nat \<Rightarrow> page \<Rightarrow> (element list \<times> element \<times> node list) option" where
  "lookupElement i p =
     find (\<lambda>(a, e, cs). nid e = i) (concat (map (subtrees []) (document p # detached p)))"

definition updatePage :: "nat \<Rightarrow> (element \<Rightarrow> element) \<Rightarrow> page \<Rightarrow> page" where
  "updatePage i f p =
     p\<lparr>document := updateElement i f (document p),
       detached := map (updateElement i f) (detached p)\<rparr>"

definition setAttribute :: "nat \<Rightarrow> string \<Rightarrow> string \<Rightarrow> page \<Rightarrow> page" where
  "setAttribute i name v p =
     updatePage i (\<lambda>e. e\<lparr>attributes := map_set name v (attributes e)\<rparr>) p"

text \<open>
  A reference always names a node.  For an identity that names none the reading
  operations answer as for an element without the property.
\<close>

definition hasAttribute :: "nat \<Rightarrow> string \<Rightarrow> page \<Rightarrow> bool" where
  "hasAttribute i name p =
     (case lookupElement i p of
        Some (a, e, cs) \<Rightarrow> map_get name (attributes e) \<noteq> None
      | None \<Rightarrow> False)"

definition classList_add :: "nat \<Rightarrow> string \<Rightarrow> page \<Rightarrow> page" where
  "classList_add i c p =
     updatePage i (\<lambda>e. if c \<in> set (classList e) then e else e\<lparr>classList := classList e @ [c]\<rparr>) p"

definition classList_remove :: "nat \<Rightarrow> string \<Rightarrow> page \<Rightarrow> page" where
  "classList_remove i c p =
     updatePage i (\<lambda>e. e\<lparr>classList := removeAll c (classList e)\<rparr>) p"

definition closest :: "selector list \<Rightarrow> nat \<Rightarrow> page \<Rightarrow> bool" where
  "closest sels i p =
     (case lookupElement i p of
        Some (a, e, cs) \<Rightarrow> closestIn sels (e # a)
      | None \<Rightarrow> False)"

definition computedDisplay :: "element \<Rightarrow> string" where
  "computedDisplay e = (if styleDisplay e \<noteq> [] then styleDisplay e else sheetDisplay e)"

text \<open>
  \<open>old.parentNode.replaceChild(new, old)\<close>.  \<open>parentNode\<close> is \<open>null\<close> for the root of the
  document and of a detached tree, and the call throws a \<open>TypeError\<close>.  A \<open>new\<close> that
  contains the parent is refused.  Otherwise \<open>new\<close> is taken out of the place it has,
  put where \<open>old\<close> was, and \<open>old\<close> becomes the root of a detached tree.
\<close>

definition replaceChild :: "nat \<Rightarrow> nat \<Rightarrow> page \<Rightarrow> jsError + page" where
  "replaceChild new old p =
     (case lookupElement old p of
        None \<Rightarrow> Inl TypeError
      | Some (oldAnc, oldE, oldCs) \<Rightarrow>
          if oldAnc = [] then Inl TypeError
          else
            (case lookupElement new p of
               None \<Rightarrow> Inl TypeError
             | Some (newAnc, newE, newCs) \<Rightarrow>
                 if new \<in> set (map nid oldAnc) then Inl HierarchyRequestError
                 else if new = old then Inr p
                 else
                   (let newNode = Element newE newCs;
                        oldNode = removeNode new (Element oldE oldCs);
                        doc1 = removeNode new (document p);
                        det1 = map (removeNode new)
                                 (filter (\<lambda>t. nodeId t \<noteq> Some new) (detached p))
                    in Inr (p\<lparr>document := replaceNode old newNode doc1,
                               detached := map (replaceNode old newNode) det1 @ [oldNode]\<rparr>))))"

fun insertBeforeNode :: "nat \<Rightarrow> node \<Rightarrow> node \<Rightarrow> node" where
  "insertBeforeNode i new (Element e cs) =
     Element e (concat (map (\<lambda>c. if nodeId c = Some i then [new, c] else [insertBeforeNode i new c]) cs))"
| "insertBeforeNode i new (TextNode s) = TextNode s"

text \<open>
  \<open>ref.parentNode.insertBefore(new, ref)\<close> for a \<open>new\<close> that is the root of a detached
  tree (a button just created).
\<close>

definition insertBefore :: "nat \<Rightarrow> nat \<Rightarrow> page \<Rightarrow> jsError + page" where
  "insertBefore new ref p =
     (case lookupElement ref p of
        None \<Rightarrow> Inl TypeError
      | Some (refAnc, refE, refCs) \<Rightarrow>
          if refAnc = [] then Inl TypeError
          else
            (case lookupElement new p of
               None \<Rightarrow> Inl TypeError
             | Some (newAnc, newE, newCs) \<Rightarrow>
                 (let newNode = Element newE newCs;
                      det1 = filter (\<lambda>t. nodeId t \<noteq> Some new) (detached p)
                  in Inr (p\<lparr>document := insertBeforeNode ref newNode (document p),
                             detached := map (insertBeforeNode ref newNode) det1\<rparr>))))"

definition blankElement :: "nat \<Rightarrow> string \<Rightarrow> element" where
  "blankElement i tag =
     \<lparr>nid = i, tagName = tag, classList = [], attributes = [], title = [],
      styleDisplay = [], sheetDisplay = ''block'', computedVisibility = ''visible'',
      src = None, srcset = None, width = None, height = None\<rparr>"

section \<open>\<open>DOMManipulator\<close>\<close>

datatype blockingMethod = Replace | Blur | Hide

text \<open>
  \<open>x > c\<close> for a property that may be missing: \<open>undefined > c\<close> is \<open>false\<close>.
\<close>

definition numGreater :: "rat option \<Rightarrow> rat \<Rightarrow> bool" where
  "numGreater x c = (case x of Some v \<Rightarrow> v > c | None \<Rightarrow> False)"

definition getBlockingMethod :: "contentType \<Rightarrow> analysisResult \<Rightarrow> blockingMethod" where
  "getBlockingMethod type analysisResult =
     (let confidence = confidence analysisResult;
          flaggedCategories =
            (case flagged_categories analysisResult of Some cs \<Rightarrow> cs | None \<Rightarrow> [])
      in if numGreater confidence (8 / 10) \<or> ''severe_toxic'' \<in> set flaggedCategories then Replace
         else if numGreater confidence (6 / 10) then Blur
         else Replace)"

text \<open>
  A property read \<open>obj[key]\<close> on an object literal finds the object's own property, or
  else one inherited from \<open>Object.prototype\<close>, or else is \<open>undefined\<close>.
\<close>

datatype 'a property = Own 'a | Inherited string

definition objectPrototypeProperties :: "string list" where
  "objectPrototypeProperties =
     [''constructor'', ''__defineGetter__'', ''__defineSetter__'', ''hasOwnProperty'',
      ''__lookupGetter__'', ''__lookupSetter__'', ''isPrototypeOf'', ''propertyIsEnumerable'',
      ''toString'', ''valueOf'', ''__proto__'', ''toLocaleString'']"

definition getProperty :: "(string, 'a) jsmap \<Rightarrow> string \<Rightarrow> 'a property option" where
  "getProperty obj key =
     (case map_get key obj of
        Some v \<Rightarrow> Some (Own v)
      | None \<Rightarrow> if key \<in> set objectPrototypeProperties then Some (Inherited key) else None)"

definition categoryLabels :: "(string, string) jsmap" where
  "categoryLabels =
     [(''toxic'', ''Toxic language''),
      (''severe_toxic'', ''Severely toxic content''),
      (''obscene'', ''Obscene content''),
      (''threat'', ''Threatening language''),
      (''insult'', ''Insulting content''),
      (''identity_hate'', ''Hate speech''),
      (''nsfw'', ''Adult content''),
      (''violence'', ''Violent content''),
      (''drugs'', ''Drug-related content''),
      (''weapons'', ''Weapon-related content'')]"

fun join :: "string \<Rightarrow> string list \<Rightarrow> string" where
  "join sep [] = []"
| "join sep [x] = x"
| "join sep (x # y # ys) = x @ sep @ join sep (y # ys)"

text \<open>
  \<open>getBlockingReason\<close>.  A category named like an inherited property prints that
  property; the model writes the property's name for it.
\<close>

definition getBlockingReason :: "analysisResult \<Rightarrow> string" where
  "getBlockingReason analysisResult =
     (let categories = (case flagged_categories analysisResult of Some cs \<Rightarrow> cs | None \<Rightarrow> [])
      in if length categories = 0 then ''Potentially inappropriate content''
         else join '', ''
                (map (\<lambda>cat. case getProperty categoryLabels cat of
                               Some (Own label) \<Rightarrow> (if label = [] then cat else label)
                             | Some (Inherited name) \<Rightarrow> name
                             | None \<Rightarrow> cat)
                   categories))"

definition typeName :: "contentType \<Rightarrow> string" where
  "typeName type = (case type of TextType \<Rightarrow> ''text'' | ImageType \<Rightarrow> ''image'')"

text \<open>
  The container \<open>createReplacementElement\<close> builds: a new \<open>div\<close> whose \<open>innerHTML\<close>
  holds the icon, the message, the reason and the two buttons; seven elements with the
  identities \<open>n\<close> to \<open>n + 6\<close>.  White-space text between the elements of the template
  is left out.
\<close>

definition replacementContainer :: "nat \<Rightarrow> contentType \<Rightarrow> analysisResult \<Rightarrow> node" where
  "replacementContainer n type analysisResult =
     (let icon = (if type = ImageType then [55357, 56764, 65039] else [55357, 56541]);
          typeLabel = (if type = ImageType then ''Image'' else ''Text'')
      in Element ((blankElement n ''div'')
                    \<lparr>classList := [''ai-firewall-blocked'', ''ai-firewall-blocked-'' @ typeName type]\<rparr>)
           [Element ((blankElement (n + 1) ''div'')\<lparr>classList := [''ai-firewall-icon'']\<rparr>)
              [TextNode icon],
            Element ((blankElement (n + 2) ''div'')\<lparr>classList := [''ai-firewall-message'']\<rparr>)
              [TextNode (js (typeLabel @ '' blocked by AI-Firewall''))],
            Element ((blankElement (n + 3) ''div'')\<lparr>classList := [''ai-firewall-details'']\<rparr>)
              [TextNode (js (''Reason: '' @ getBlockingReason analysisResult))],
            Element ((blankElement (n + 4) ''div'')\<lparr>classList := [''ai-firewall-actions'']\<rparr>)
              [Element ((blankElement (n + 5) ''button'')
                          \<lparr>classList := [''ai-firewall-btn'', ''ai-firewall-btn-primary''],
                            attributes := [(''data-action'', ''show'')]\<rparr>)
                 [TextNode (js ''Show Content'')],
               Element ((blankElement (n + 6) ''button'')
                          \<lparr>classList := [''ai-firewall-btn''],
                            attributes := [(''data-action'', ''report'')]\<rparr>)
                 [TextNode (js ''Report Issue'')]]])"

text \<open>
  \<open>createReplacementElement\<close>: the container is created detached, with the listener of
  \<open>addReplacementEventListeners\<close> registered on it; its identity is returned.
\<close>

definition createReplacementElement ::
  "nat \<Rightarrow> contentType \<Rightarrow> analysisResult \<Rightarrow> page \<Rightarrow> nat \<times> page" where
  "createReplacementElement originalElement type analysisResult p =
     (let n = nextId p;
          container = replacementContainer n type analysisResult
      in (n, p\<lparr>detached := detached p @ [container],
                nextId := n + 7,
                clickListeners := clickListeners p @ [(n, ReplacementActions n originalElement type)]\<rparr>))"

text \<open>
  The blocking actions return the page they leave and the exception they throw, if any:
  what was written before a throw stays written.
\<close>

definition replaceContent ::
  "nat \<Rightarrow> contentType \<Rightarrow> analysisResult \<Rightarrow> page \<Rightarrow> page \<times> jsError option" where
  "replaceContent el type analysisResult p =
     (let (replacement, p1) = createReplacementElement el type analysisResult p;
          p2 = p1\<lparr>replacementElements := map_set replacement el (replacementElements p1)\<rparr>
      in case replaceChild replacement el p2 of
           Inl err \<Rightarrow> (p2, Some err)
         | Inr p3 \<Rightarrow> (p3, None))"

definition showOriginalContent :: "bool \<Rightarrow> nat \<Rightarrow> nat \<Rightarrow> page \<Rightarrow> page \<times> jsError option" where
  "showOriginalContent confirmed replacement originalElement p =
     (if confirmed then
        (case replaceChild originalElement replacement p of
           Inl err \<Rightarrow> (p, Some err)
         | Inr p1 \<Rightarrow>
             (let p2 = classList_add originalElement ''ai-firewall-safe'' p1;
                  p3 = p2\<lparr>replacementElements := map_delete replacement (replacementElements p2)\<rparr>;
                  p4 = p3\<lparr>blockedElements := blockedElements p3 - {originalElement}\<rparr>
              in (p4, None)))
      else (p, None))"

definition blurContent ::
  "nat \<Rightarrow> contentType \<Rightarrow> analysisResult \<Rightarrow> page \<Rightarrow> page \<times> jsError option" where
  "blurContent el type analysisResult p =
     (let p1 = classList_add el ''ai-firewall-blurred'' p;
          p2 = p1\<lparr>clickListeners := clickListeners p1 @ [(el, RemoveBlur el)]\<rparr>;
          p3 = updatePage el
                 (\<lambda>e. e\<lparr>title := js (''Content blurred by AI-Firewall. Reason: ''
                                       @ getBlockingReason analysisResult @ ''. Click to reveal.'')\<rparr>) p2
      in (p3, None))"

text \<open>The click handler \<open>removeBlur\<close> that \<open>blurContent\<close> registers.\<close>

definition removeBlur :: "nat \<Rightarrow> page \<Rightarrow> page" where
  "removeBlur el p =
     (let p1 = classList_remove el ''ai-firewall-blurred'' p;
          p2 = p1\<lparr>clickListeners := filter (\<lambda>l. l \<noteq> (el, RemoveBlur el)) (clickListeners p1)\<rparr>;
          p3 = classList_add el ''ai-firewall-safe'' p2
      in p3\<lparr>blockedElements := blockedElements p3 - {el}\<rparr>)"

definition hideContent ::
  "nat \<Rightarrow> contentType \<Rightarrow> analysisResult \<Rightarrow> page \<Rightarrow> page \<times> jsError option" where
  "hideContent el type analysisResult p =
     (let originalDisplay =
            (case lookupElement el p of Some (a, e, cs) \<Rightarrow> styleDisplay e | None \<Rightarrow> []);
          p1 = setAttribute el ''data-original-display'' originalDisplay p;
          p2 = updatePage el (\<lambda>e. e\<lparr>styleDisplay := ''none''\<rparr>) p1;
          n = nextId p2;
          showButton =
            Element ((blankElement n ''button'')
                       \<lparr>classList := [''ai-firewall-btn'', ''ai-firewall-btn-primary'']\<rparr>)
              [TextNode (js (''Show hidden '' @ typeName type))];
          p3 = p2\<lparr>detached := detached p2 @ [showButton],
                   nextId := n + 1,
                   clickListeners := clickListeners p2 @ [(n, ShowHidden n el originalDisplay)]\<rparr>
      in case insertBefore n el p3 of
           Inl err \<Rightarrow> (p3, Some err)
         | Inr p4 \<Rightarrow> (p4, None))"

text \<open>
  \<open>handleUnsafeContent(detail)\<close> of the manipulator, with \<open>detail\<close> taken apart into its
  element, type and analysis result.
\<close>

definition handleUnsafeContent ::
  "nat \<Rightarrow> contentType \<Rightarrow> analysisResult \<Rightarrow> page \<Rightarrow> page \<times> jsError option" where
  "handleUnsafeContent el type analysisResult p =
     (if el \<in> blockedElements p then (p, None)
      else
        (let p1 = p\<lparr>blockedElements := insert el (blockedElements p)\<rparr>;
             blockingMethod = getBlockingMethod type analysisResult
         in case blockingMethod of
              Replace \<Rightarrow> replaceContent el type analysisResult p1
            | Blur \<Rightarrow> blurContent el type analysisResult p1
            | Hide \<Rightarrow> hideContent el type analysisResult p1))"

definition getBlockedCount :: "page \<Rightarrow> nat" where
  "getBlockedCount p = card (blockedElements p)"

section \<open>\<open>ContentScanner\<close>\<close>

definition textSelectors :: "selector list" where
  "textSelectors =
     map (\<lambda>t. [Tag t])
       [''p'', ''div'', ''span'', ''h1'', ''h2'', ''h3'', ''h4'', ''h5'', ''h6'',
        ''article'', ''section'', ''main'', ''aside'', ''blockquote'',
        ''li'', ''td'', ''th'', ''caption'', ''figcaption'']
     @ [[Class ''g''], [Class ''rc''], [Class ''r''], [Class ''s''], [Class ''st''],
        [HasAttribute ''data-ved''], [Class ''LC20lb'']]"

definition imageSelectors :: "selector list" where
  "imageSelectors = [[Tag ''img''], [Tag ''picture''], [Tag ''svg'']]"

definition ignoreSelectors :: "selector list" where
  "ignoreSelectors =
     [[Tag ''script''], [Tag ''style''], [Tag ''noscript''], [Tag ''meta''], [Tag ''link''],
      [Tag ''title''], [Class ''ai-firewall-blocked''], [Class ''ai-firewall-safe'']]"

definition googleSelectors :: "selector list" where
  "googleSelectors =
     [[Class ''g'', Class ''LC20lb''],
      [Class ''g'', Class ''VwiC3b''],
      [Class ''g'', Class ''s'', Class ''st''],
      [Class ''g'', Class ''r'', Tag ''a''],
      [Id ''search'', Class ''g''],
      [Class ''srg'', Class ''g'']]"

subsection \<open>Strings\<close>

text \<open>\<open>s.includes(sub)\<close>: \<open>sub\<close> occurs in \<open>s\<close> as a contiguous run of code units.\<close>

fun startsWith :: "'a list \<Rightarrow> 'a list \<Rightarrow> bool" where
  "startsWith s [] = True"
| "startsWith [] (c # cs) = False"
| "startsWith (x # xs) (c # cs) = (x = c \<and> startsWith xs cs)"

fun "includes" :: "'a list \<Rightarrow> 'a list \<Rightarrow> bool" where
  "includes [] sub = (sub = [])"
| "includes (x # xs) sub = (startsWith (x # xs) sub \<or> includes xs sub)"

text \<open>The code units \<open>trim\<close> removes: white space and line terminators.\<close>

definition isWhiteSpace :: "nat \<Rightarrow> bool" where
  "isWhiteSpace c =
     (c \<in> set [9, 10, 11, 12, 13, 32, 160, 5760, 8232, 8233, 8239, 8287, 12288, 65279]
      \<or> (8192 \<le> c \<and> c \<le> 8202))"

definition trim :: "jsstring \<Rightarrow> jsstring" where
  "trim s = rev (dropWhile isWhiteSpace (rev (dropWhile isWhiteSpace s)))"

text \<open>The regular expression \<open>/[a-zA-Z]/\<close> on one code unit.\<close>

definition isAsciiLetter :: "nat \<Rightarrow> bool" where
  "isAsciiLetter c = ((65 \<le> c \<and> c \<le> 90) \<or> (97 \<le> c \<and> c \<le> 122))"

subsection \<open>Settings\<close>

definition thresholds :: "contentType \<Rightarrow> (string, rat) jsmap" where
  "thresholds type =
     (case type of
        TextType \<Rightarrow> [(''mild'', 8 / 10), (''moderate'', 6 / 10), (''strict'', 4 / 10)]
      | ImageType \<Rightarrow> [(''mild'', 7 / 10), (''moderate'', 5 / 10), (''strict'', 3 / 10)])"

text \<open>A property key made from a value that may be \<open>undefined\<close>.\<close>

definition propertyKey :: "string option \<Rightarrow> string" where
  "propertyKey v = (case v of Some s \<Rightarrow> s | None \<Rightarrow> ''undefined'')"

text \<open>
  \<open>getThreshold(type)\<close> with \<open>this.settings\<close> given: \<open>thresholds[type][level] || 0.6\<close>.
  A number is falsy when it is zero; an inherited property (a function or an object)
  is truthy and is returned as it is.
\<close>

definition getThreshold :: "contentType \<Rightarrow> settings \<Rightarrow> rat property" where
  "getThreshold type st =
     (let level = filteringLevel st
      in case getProperty (thresholds type) (propertyKey level) of
           Some (Own v) \<Rightarrow> if v \<noteq> 0 then Own v else Own (6 / 10)
         | Some (Inherited name) \<Rightarrow> Inherited name
         | None \<Rightarrow> Own (6 / 10))"

text \<open>The threshold as the message carries it: \<open>None\<close> when it is not a number.\<close>

definition messageNumber :: "rat property \<Rightarrow> rat option" where
  "messageNumber v = (case v of Own r \<Rightarrow> Some r | Inherited name \<Rightarrow> None)"

text \<open>
  \<open>isAllowlisted()\<close>.  Reading \<open>this.settings.allowlist\<close> throws a \<open>TypeError\<close> while
  \<open>settings\<close> is \<open>null\<close>, and so does calling \<open>some\<close> on an allowlist that is
  \<open>undefined\<close>.
\<close>

definition isAllowlisted :: "page \<Rightarrow> jsError + bool" where
  "isAllowlisted p =
     (let currentDomain = hostname p
      in case settings p of
           None \<Rightarrow> Inl TypeError
         | Some st \<Rightarrow>
             (case allowlist st of
                None \<Rightarrow> Inl TypeError
              | Some entries \<Rightarrow>
                  Inr (\<exists>domain \<in> set entries.
                         includes currentDomain domain \<or> includes domain currentDomain)))"

subsection \<open>Discovery\<close>

definition shouldIgnoreElement :: "nat \<Rightarrow> page \<Rightarrow> bool" where
  "shouldIgnoreElement el p =
     (if closest ignoreSelectors el p then True
      else if hasAttribute el ''data-ai-firewall-processed'' p then True
      else
        (case lookupElement el p of
           Some (a, e, cs) \<Rightarrow> computedDisplay e = ''none'' \<or> computedVisibility e = ''hidden''
         | None \<Rightarrow> False))"

definition extractText :: "nat \<Rightarrow> page \<Rightarrow> jsstring" where
  "extractText el p =
     (case lookupElement el p of
        Some (a, e, cs) \<Rightarrow> trim (textContent (Element e cs))
      | None \<Rightarrow> [])"

definition shouldAnalyzeText :: "jsstring \<Rightarrow> bool" where
  "shouldAnalyzeText txt =
     (if length txt < 5 \<or> length txt > 5000 then False
      else if \<not> (\<exists>c \<in> set txt. isAsciiLetter c) then False
      else True)"

definition shouldAnalyzeImage :: "nat \<Rightarrow> page \<Rightarrow> bool" where
  "shouldAnalyzeImage el p =
     (case lookupElement el p of
        None \<Rightarrow> False
      | Some (a, e, cs) \<Rightarrow>
          if (src e = None \<or> src e = Some []) \<and> (srcset e = None \<or> srcset e = Some []) then False
          else if (case width e of Some w \<Rightarrow> w < 50 | None \<Rightarrow> False)
                  \<or> (case height e of Some h \<Rightarrow> h < 50 | None \<Rightarrow> False) then False
          else True)"

subsection \<open>The queue and the analysis of an item\<close>

text \<open>
  After an item's analysis has ended (or thrown, which \<open>processQueue\<close> catches):
  \<open>if (this.scanQueue.length > 0) setTimeout(() => this.processQueue(), 100)\<close>.
\<close>

definition processQueue_continue :: "page \<Rightarrow> page" where
  "processQueue_continue p =
     (if length (scanQueue p) > 0 then p\<lparr>queueTimeouts := Suc (queueTimeouts p)\<rparr> else p)"

text \<open>
  \<open>analyzeText(item)\<close> up to its \<open>await\<close>: the message is built and sent.  With
  \<open>settings\<close> \<open>null\<close> building it throws, \<open>processQueue\<close> catches the exception and goes on.
\<close>

definition analyzeText_begin :: "nat \<Rightarrow> jsstring \<Rightarrow> page \<Rightarrow> page" where
  "analyzeText_begin el content p =
     (case settings p of
        None \<Rightarrow> processQueue_continue p
      | Some st \<Rightarrow>
          p\<lparr>outbox := outbox p @
               [AnalyzeText \<lparr>text = content,
                             threshold = messageNumber (getThreshold TextType st),
                             ageGroup = settings.ageGroup st\<rparr>]\<rparr>)"

text \<open>
  \<open>handleUnsafeContent\<close> of the scanner dispatches the event; the manipulator's listener
  runs during the dispatch, and an exception it throws does not reach the dispatcher.
\<close>

definition scanner_handleUnsafeContent :: "nat \<Rightarrow> contentType \<Rightarrow> analysisResult \<Rightarrow> page \<Rightarrow> page" where
  "scanner_handleUnsafeContent el type analysisResult p =
     fst (handleUnsafeContent el type analysisResult
            (p\<lparr>dispatched := dispatched p @ [(el, type, analysisResult)]\<rparr>))"

text \<open>\<open>analyzeText(item)\<close> from the worker's response on, and the end of \<open>processQueue\<close>.\<close>

definition analyzeText_resume :: "nat \<Rightarrow> response \<Rightarrow> page \<Rightarrow> page" where
  "analyzeText_resume el resp p =
     processQueue_continue
       (case resp of
          Success result \<Rightarrow>
            if \<not> is_safe result then scanner_handleUnsafeContent el TextType result p else p
        | Failure err \<Rightarrow> p)"

text \<open>
  \<open>analyzeImage(item)\<close>: it first awaits \<open>getImageData\<close>, which delivers a data URL or
  rejects (\<open>None\<close>); then the message is sent; then the response is handled.  Its own
  \<open>try\<close> catches every exception.
\<close>

definition analyzeImage_loaded :: "nat \<Rightarrow> jsstring option \<Rightarrow> page \<Rightarrow> page" where
  "analyzeImage_loaded el loaded p =
     (case loaded of
        None \<Rightarrow> processQueue_continue p
      | Some url \<Rightarrow>
          (case settings p of
             None \<Rightarrow> processQueue_continue p
           | Some st \<Rightarrow>
               p\<lparr>outbox := outbox p @
                    [AnalyzeImage \<lparr>imageData = url,
                                   threshold = messageNumber (getThreshold ImageType st),
                                   ageGroup = settings.ageGroup st\<rparr>]\<rparr>))"

definition analyzeImage_resume :: "nat \<Rightarrow> response \<Rightarrow> page \<Rightarrow> page" where
  "analyzeImage_resume el resp p =
     processQueue_continue
       (case resp of
          Success result \<Rightarrow>
            if \<not> is_safe result then scanner_handleUnsafeContent el ImageType result p else p
        | Failure err \<Rightarrow> p)"

text \<open>
  \<open>processQueue()\<close> up to the first \<open>await\<close>: the first item is taken off the queue, its
  element is marked processed, and its analysis is started.
\<close>

definition processQueue :: "page \<Rightarrow> page" where
  "processQueue p =
     (case scanQueue p of
        [] \<Rightarrow> p
      | item # rest \<Rightarrow>
          (let p1 = p\<lparr>scanQueue := rest\<rparr>;
               p2 = setAttribute (itemElement item) ''data-ai-firewall-processed'' ''true'' p1
           in case item of
                TextItem el content t \<Rightarrow> analyzeText_begin el content p2
              | ImageItem el t \<Rightarrow> p2))"

definition queueTextAnalysis :: "int \<Rightarrow> nat \<Rightarrow> jsstring \<Rightarrow> page \<Rightarrow> page" where
  "queueTextAnalysis now el txt p =
     processQueue (p\<lparr>scanQueue := scanQueue p @ [TextItem el txt now],
                      queued := queued p @ [el]\<rparr>)"

definition queueImageAnalysis :: "int \<Rightarrow> nat \<Rightarrow> page \<Rightarrow> page" where
  "queueImageAnalysis now el p =
     processQueue (p\<lparr>scanQueue := scanQueue p @ [ImageItem el now],
                      queued := queued p @ [el]\<rparr>)"

subsection \<open>Scanning\<close>

text \<open>The bodies of the \<open>forEach\<close> callbacks, for one element.\<close>

definition scanTextElement :: "int \<Rightarrow> page \<Rightarrow> nat \<Rightarrow> page" where
  "scanTextElement now p el =
     (if shouldIgnoreElement el p then p
      else
        (let txt = extractText el p
         in if shouldAnalyzeText txt then queueTextAnalysis now el txt p else p))"

definition scanImageElement :: "int \<Rightarrow> page \<Rightarrow> nat \<Rightarrow> page" where
  "scanImageElement now p el =
     (if shouldIgnoreElement el p then p
      else if shouldAnalyzeImage el p then queueImageAnalysis now el p
      else p)"

definition scanTextContent :: "int \<Rightarrow> page \<Rightarrow> page" where
  "scanTextContent now p =
     (let textElements = querySelectorAll textSelectors [] (document p)
      in foldl (scanTextElement now) p textElements)"

definition scanImageContent :: "int \<Rightarrow> page \<Rightarrow> page" where
  "scanImageContent now p =
     (let imageElements = querySelectorAll imageSelectors [] (document p)
      in foldl (scanImageElement now) p imageElements)"

definition scanGoogleSearchResults :: "int \<Rightarrow> page \<Rightarrow> page" where
  "scanGoogleSearchResults now p =
     foldl (\<lambda>p selector.
              (let elements = querySelectorAll [selector] [] (document p)
               in foldl (scanTextElement now) p elements))
       p googleSelectors"

definition scanExistingContent :: "int \<Rightarrow> page \<Rightarrow> page" where
  "scanExistingContent now p =
     (let p1 = scanTextContent now p;
          p2 = (if includes (hostname p1) (js ''google.'') then scanGoogleSearchResults now p1 else p1)
      in scanImageContent now p2)"

text \<open>
  \<open>scanNewElement(element)\<close>, called by the mutation observer for an added element: the
  descendants of the element are scanned.
\<close>

definition scanNewElement :: "int \<Rightarrow> nat \<Rightarrow> page \<Rightarrow> page" where
  "scanNewElement now el p =
     (case lookupElement el p of
        None \<Rightarrow> p
      | Some (a, e, cs) \<Rightarrow>
          (let textElements = querySelectorAll textSelectors a (Element e cs);
               p1 = foldl (scanTextElement now) p textElements;
               imageElements =
                 (case lookupElement el p1 of
                    None \<Rightarrow> []
                  | Some (a1, e1, cs1) \<Rightarrow> querySelectorAll imageSelectors a1 (Element e1 cs1))
           in foldl (scanImageElement now) p1 imageElements))"

text \<open>
  \<open>continuousScanning()\<close> registers the interval; \<open>periodicRescan\<close> is its callback,
  run every five seconds.
\<close>

definition continuousScanning :: "page \<Rightarrow> page" where
  "continuousScanning p = p\<lparr>rescanIntervals := Suc (rescanIntervals p)\<rparr>"

definition periodicRescan :: "int \<Rightarrow> page \<Rightarrow> jsError + page" where
  "periodicRescan now p =
     (case isAllowlisted p of
        Inl err \<Rightarrow> Inl err
      | Inr listed \<Rightarrow> if \<not> listed then Inr (scanExistingContent now p) else Inr p)"

text \<open>
  \<open>startScanning()\<close>.  The exception of \<open>isAllowlisted\<close> leaves \<open>isScanning\<close> set; the
  result is the page and the exception thrown, if any.
\<close>

definition startScanning :: "int \<Rightarrow> page \<Rightarrow> page \<times> jsError option" where
  "startScanning now p =
     (if isScanning p then (p, None)
      else
        (let p1 = p\<lparr>isScanning := True\<rparr>
         in case isAllowlisted p1 of
              Inl err \<Rightarrow> (p1, Some err)
            | Inr listed \<Rightarrow>
                if listed then (p1, None)
                else (continuousScanning (scanExistingContent now p1), None)))"

definition destroy :: "page \<Rightarrow> page" where
  "destroy p = p\<lparr>isScanning := False, scanQueue := []\<rparr>"

section \<open>Notions used in the statements\<close>

text \<open>A list of selectors none of which tests the processed mark.\<close>

definition plainSelectors :: "selector list \<Rightarrow> bool" where
  "plainSelectors sels =
     (\<forall>sel \<in> set sels. \<forall>s \<in> set sel. s \<noteq> HasAttribute ''data-ai-firewall-processed'')"

text \<open>
  \<open>q\<close> shows discovery the same page as \<open>p\<close>, with at least the processed marks of \<open>p\<close>:
  the same elements exist, with the same answers to every test discovery makes other
  than the processed mark, and the same query results.
\<close>

definition sameElement :: "page \<Rightarrow> page \<Rightarrow> nat \<Rightarrow> bool" where
  "sameElement p q el =
     ((lookupElement el q = None \<longleftrightarrow> lookupElement el p = None)
      \<and> closest ignoreSelectors el q = closest ignoreSelectors el p
      \<and> (hasAttribute el ''data-ai-firewall-processed'' p \<longrightarrow>
           hasAttribute el ''data-ai-firewall-processed'' q)
      \<and> (shouldIgnoreElement el p \<longrightarrow> shouldIgnoreElement el q)
      \<and> (hasAttribute el ''data-ai-firewall-processed'' q
           \<or> shouldIgnoreElement el q = shouldIgnoreElement el p)
      \<and> extractText el q = extractText el p
      \<and> shouldAnalyzeImage el q = shouldAnalyzeImage el p)"

definition sameDiscovery :: "page \<Rightarrow> page \<Rightarrow> bool" where
  "sameDiscovery p q =
     (hostname q = hostname p
      \<and> settings q = settings p
      \<and> (\<forall>el. sameElement p q el)
      \<and> (\<forall>sels. plainSelectors sels \<longrightarrow>
             querySelectorAll sels [] (document q) = querySelectorAll sels [] (document p)))"

text \<open>An element a visit of discovery leaves alone: ignored, or not eligible.\<close>

definition settledText :: "page \<Rightarrow> nat \<Rightarrow> bool" where
  "settledText p el = (shouldIgnoreElement el p \<or> \<not> shouldAnalyzeText (extractText el p))"

definition settledImage :: "page \<Rightarrow> nat \<Rightarrow> bool" where
  "settledImage p el = (shouldIgnoreElement el p \<or> \<not> shouldAnalyzeImage el p)"

text \<open>
  A visit of discovery to one element, by whichever path reaches it: the text pass, the
  Google pass and the text half of \<open>scanNewElement\<close> visit with \<open>scanTextElement\<close>, the
  image passes with \<open>scanImageElement\<close>.
\<close>

datatype visit = VisitText nat | VisitImage nat

fun discover :: "int \<Rightarrow> page \<Rightarrow> visit \<Rightarrow> page" where
  "discover now p (VisitText el) = scanTextElement now p el"
| "discover now p (VisitImage el) = scanImageElement now p el"

text \<open>
  The invariant of the queue: between two tasks it is empty, no element has been queued
  twice, and every element queued carries the processed mark.
\<close>

definition queuedOnce :: "page \<Rightarrow> bool" where
  "queuedOnce p =
     (scanQueue p = []
      \<and> distinct (queued p)
      \<and> (\<forall>el \<in> set (queued p). hasAttribute el ''data-ai-firewall-processed'' p))"

text \<open>
  \<open>q\<close> comes from \<open>p\<close> by discovery: it shows the same page, nothing has left the record
  of queued elements, and every processed mark that is new in \<open>q\<close> is on an element
  that has been queued.
\<close>

definition scanned :: "page \<Rightarrow> page \<Rightarrow> bool" where
  "scanned p q =
     (sameDiscovery p q
      \<and> set (queued p) \<subseteq> set (queued q)
      \<and> (\<forall>el. hasAttribute el ''data-ai-firewall-processed'' q \<longrightarrow>
                hasAttribute el ''data-ai-firewall-processed'' p \<or> el \<in> set (queued q)))"

text \<open>
  The identities of the elements of a tree, in document order.  A page is well formed when
  no identity occurs twice among its trees and every identity in use is below \<open>nextId\<close>.
  An element is attached when it is in the document tree.
\<close>

fun nodeIds :: "node \<Rightarrow> nat list" where
  "nodeIds (Element e cs) = nid e # concat (map nodeIds cs)"
| "nodeIds (TextNode s) = []"

definition allIds :: "page \<Rightarrow> nat list" where
  "allIds p = concat (map nodeIds (document p # detached p))"

definition wellFormed :: "page \<Rightarrow> bool" where
  "wellFormed p = (distinct (allIds p) \<and> (\<forall>i \<in> set (allIds p). i < nextId p))"

definition attached :: "nat \<Rightarrow> page \<Rightarrow> bool" where
  "attached i p = (i \<in> set (nodeIds (document p)))"

section \<open>Concrete inputs\<close>

text \<open>Verdicts, requests and an empty worker, used where a statement is run on an input.\<close>

definition safeVerdict :: analysisResult where
  "safeVerdict = \<lparr>is_safe = True, confidence = Some (1 / 10), flagged_categories = Some []\<rparr>"

definition unsafeVerdict :: analysisResult where
  "unsafeVerdict = \<lparr>is_safe = False, confidence = Some (9 / 10), flagged_categories = Some [''identity_hate'']\<rparr>"

definition helloRequest :: textRequest where
  "helloRequest = \<lparr>text = [104, 101, 108, 108, 111], threshold = Some (6 / 10), ageGroup = Some ''moderate''\<rparr>"

definition freshWorker :: worker where
  "freshWorker = \<lparr>analysisCache = [], pendingRequests = [], fetched = [], stats = []\<rparr>"

definition moderateSettings :: settings where
  "moderateSettings = \<lparr>filteringLevel = Some ''moderate'', ageGroup = Some ''moderate'', allowlist = Some []\<rparr>"

text \<open>
  A page on host \<open>a.com\<close>: a paragraph (element 3) and an image (element 4) in the body,
  nothing scanned or blocked yet.
\<close>

definition samplePage :: page where
  "samplePage =
     \<lparr>hostname = js ''a.com'',
      document =
        Element (blankElement 0 ''#document'')
          [Element (blankElement 1 ''html'')
             [Element (blankElement 2 ''body'')
                [Element (blankElement 3 ''p'') [TextNode (js ''hello world'')],
                 Element ((blankElement 4 ''img'')
                            \<lparr>src := Some (js ''x.png''), width := Some 100, height := Some 100\<rparr>) []]]],
      detached = [],
      nextId = 5,
      blockedElements = {},
      replacementElements = [],
      clickListeners = [],
      scanQueue = [],
      isScanning = False,
      settings = Some moderateSettings,
      rescanIntervals = 0,
      queueTimeouts = 0,
      queued = [],
      outbox = [],
      dispatched = []\<rparr>"

text \<open>The same page with \<open>www.a.com\<close> on the allowlist.\<close>

definition allowlistedPage :: page where
  "allowlistedPage = samplePage\<lparr>settings := Some (moderateSettings\<lparr>allowlist := Some [js ''www.a.com'']\<rparr>)\<rparr>"

text \<open>
  The sample page after its paragraph has been replaced, and after the container (the
  element 5) has then been clicked to show the paragraph again, with confirmation.
\<close>

definition replacedPage :: page where
  "replacedPage = fst (replaceContent 3 TextType unsafeVerdict samplePage)"

definition revealedPage :: page where
  "revealedPage = fst (showOriginalContent True 5 3 replacedPage)"

section \<open>Properties of the result cache and the dispatch\<close>

lemma map_get_map_set_same [simp]: "map_get k (map_set k v m) = Some v"
  by (induction m) auto

lemma map_get_map_set_other [simp]: "k \<noteq> k' \<Longrightarrow> map_get k (map_set k' v m) = map_get k m"
  by (induction m) auto

lemma length_map_delete_le: "length (map_delete k m) \<le> length m"
  by (induction m) (auto intro: le_SucI)

lemma length_map_set_le: "length (map_set k v m) \<le> Suc (length m)"
  by (induction m) auto

lemma map_get_map_delete_same: "map_get k (map_delete k m) = None"
  by (induction m) auto

lemma map_delete_absent: "map_get k m = None \<Longrightarrow> map_delete k m = m"
  by (induction m) (auto split: if_splits)

lemma map_delete_notin: "k \<notin> fst ` set m \<Longrightarrow> map_delete k m = m"
  by (induction m) auto

lemma map_delete_first: "map_wf (p # ps) \<Longrightarrow> map_delete (fst p) (p # ps) = ps"
  by (simp add: map_wf_def map_keys_def map_delete_notin)

lemma map_keys_map_set:
  "map_keys (map_set k v m) = (if k \<in> set (map_keys m) then map_keys m else map_keys m @ [k])"
  by (induction m) (auto simp: map_keys_def)

lemma map_keys_map_delete: "map_keys (map_delete k m) = removeAll k (map_keys m)"
  by (induction m) (auto simp: map_keys_def)

lemma map_wf_map_set: "map_wf m \<Longrightarrow> map_wf (map_set k v m)"
  by (simp add: map_wf_def map_keys_map_set)

lemma map_wf_map_delete: "map_wf m \<Longrightarrow> map_wf (map_delete k m)"
  by (simp add: map_wf_def map_keys_map_delete distinct_removeAll)

lemma setCache_size: "map_size cache \<le> MAX_CACHE_SIZE \<Longrightarrow> map_size (setCache now key d cache) \<le> MAX_CACHE_SIZE"
proof (cases cache)
  case Nil
  then show ?thesis by (simp add: setCache_def map_size_def map_first_key_def MAX_CACHE_SIZE_def)
next
  case (Cons p ps)
  assume b: "map_size cache \<le> MAX_CACHE_SIZE"
  show ?thesis
  proof (cases "map_size cache \<ge> MAX_CACHE_SIZE")
    case True
    have "length (map_delete (fst p) ps) \<le> length ps" by (rule length_map_delete_le)
    moreover have "length (map_set key \<lparr>data = d, timestamp = now\<rparr> (map_delete (fst p) ps)) \<le> Suc (length (map_delete (fst p) ps))"
      by (rule length_map_set_le)
    ultimately show ?thesis using True b Cons
      by (simp add: setCache_def map_size_def map_first_key_def)
  next
    case False
    have "length (map_set key \<lparr>data = d, timestamp = now\<rparr> cache) \<le> Suc (length cache)"
      by (rule length_map_set_le)
    then show ?thesis using False by (simp add: setCache_def map_size_def)
  qed
qed

lemma setCache_wf: "map_wf cache \<Longrightarrow> map_wf (setCache now key d cache)"
  by (auto simp: setCache_def Let_def map_wf_map_set map_wf_map_delete split: option.splits)

lemma setCaches_size:
  "map_size cache \<le> MAX_CACHE_SIZE \<Longrightarrow>
   map_size (foldl (\<lambda>c (now, key, d). setCache now key d c) cache insertions) \<le> MAX_CACHE_SIZE"
  by (induction insertions arbitrary: cache) (auto simp: setCache_size)

lemma setCache_at_limit:
  assumes "map_wf cache" "map_size cache \<ge> MAX_CACHE_SIZE"
  shows "setCache now key d cache = map_set key \<lparr>data = d, timestamp = now\<rparr> (tl cache)"
proof (cases cache)
  case Nil
  with assms show ?thesis by (simp add: map_size_def MAX_CACHE_SIZE_def)
next
  case (Cons p ps)
  with assms have "map_delete (fst p) (p # ps) = ps" by (simp only: map_delete_first)
  with assms Cons show ?thesis by (simp add: setCache_def map_first_key_def)
qed

text \<open>
  C5.  Starting from a cache within the limit, the cache stays within \<open>MAX_CACHE_SIZE\<close>
  after every sequence of \<open>setCache\<close> insertions.  An insertion into a cache that is at
  the limit first drops the entry at the front of the insertion order, exactly that one,
  and then sets the new key; below the limit nothing is dropped.
\<close>

theorem setCache_bounded_oldest_first:
  assumes "map_wf cache" and "map_size cache \<le> MAX_CACHE_SIZE"
  shows "map_size (foldl (\<lambda>c (now, key, d). setCache now key d c) cache insertions) \<le> MAX_CACHE_SIZE
       \<and> (map_size cache = MAX_CACHE_SIZE \<longrightarrow>
            setCache now key d cache = map_set key \<lparr>data = d, timestamp = now\<rparr> (tl cache)
            \<and> map_keys (tl cache) = tl (map_keys cache)
            \<and> map_size (tl cache) = MAX_CACHE_SIZE - 1)
       \<and> (map_size cache < MAX_CACHE_SIZE \<longrightarrow>
            setCache now key d cache = map_set key \<lparr>data = d, timestamp = now\<rparr> cache)"
proof (intro conjI impI)
  show "map_size (foldl (\<lambda>c (now, key, d). setCache now key d c) cache insertions) \<le> MAX_CACHE_SIZE"
    using assms(2) by (rule setCaches_size)
next
  assume "map_size cache = MAX_CACHE_SIZE"
  then show "setCache now key d cache = map_set key \<lparr>data = d, timestamp = now\<rparr> (tl cache)"
    using assms(1) by (simp add: setCache_at_limit)
next
  show "map_keys (tl cache) = tl (map_keys cache)"
    by (simp add: map_keys_def map_tl)
next
  assume "map_size cache = MAX_CACHE_SIZE"
  then show "map_size (tl cache) = MAX_CACHE_SIZE - 1"
    by (simp add: map_size_def)
next
  assume "map_size cache < MAX_CACHE_SIZE"
  then show "setCache now key d cache = map_set key \<lparr>data = d, timestamp = now\<rparr> cache"
    by (simp add: setCache_def)
qed

theorem setCache_bounded_oldest_first_witness:
  "map_wf (map (\<lambda>i. (i, \<lparr>data = safeVerdict, timestamp = 0\<rparr>)) [0..<1000])
   \<and> map_size (map (\<lambda>i. (i, \<lparr>data = safeVerdict, timestamp = 0\<rparr>)) [0..<1000]) = MAX_CACHE_SIZE
   \<and> map_size (foldl (\<lambda>c (now, key, d). setCache now key d c)
         (map (\<lambda>i. (i, \<lparr>data = safeVerdict, timestamp = 0\<rparr>)) [0..<1000])
         [(7, 1000, unsafeVerdict), (8, 1001, safeVerdict)]) \<le> MAX_CACHE_SIZE
   \<and> setCache 7 1000 unsafeVerdict (map (\<lambda>i. (i, \<lparr>data = safeVerdict, timestamp = 0\<rparr>)) [0..<1000])
       = map_set 1000 \<lparr>data = unsafeVerdict, timestamp = 7\<rparr>
           (tl (map (\<lambda>i. (i, \<lparr>data = safeVerdict, timestamp = 0\<rparr>)) [0..<1000]))"
proof -
  let ?C = "map (\<lambda>i. (i, \<lparr>data = safeVerdict, timestamp = 0\<rparr>)) [0..<1000::nat]"
  have wf: "map_wf ?C" by (simp add: map_wf_def map_keys_def comp_def)
  have sz: "map_size ?C = MAX_CACHE_SIZE" by (simp add: map_size_def MAX_CACHE_SIZE_def)
  then have le: "map_size ?C \<le> MAX_CACHE_SIZE" by simp
  note T = setCache_bounded_oldest_first
    [OF wf le, of "[(7, 1000, unsafeVerdict), (8, 1001, safeVerdict)]" 7 1000 unsafeVerdict]
  from T have a: "map_size (foldl (\<lambda>c (now, key, d). setCache now key d c) ?C
         [(7, 1000, unsafeVerdict), (8, 1001, safeVerdict)]) \<le> MAX_CACHE_SIZE"
    by (rule conjunct1)
  from T sz have b: "setCache 7 1000 unsafeVerdict ?C
       = map_set 1000 \<lparr>data = unsafeVerdict, timestamp = 7\<rparr> (tl ?C)"
    by blast
  from wf sz a b show ?thesis by blast
qed

lemma getFromCache_hit_iff:
  "fst (getFromCache now key cache) = Some r \<longleftrightarrow>
     (\<exists>e. map_get key cache = Some e \<and> data e = r \<and> now - timestamp e < CACHE_DURATION)"
  by (auto simp: getFromCache_def split: option.splits)

lemma getFromCache_miss_deletes:
  "fst (getFromCache now key cache) = None \<Longrightarrow>
     snd (getFromCache now key cache) = map_delete key cache"
  by (auto simp: getFromCache_def split: option.splits if_splits)

lemma getFromCache_hit_keeps:
  "fst (getFromCache now key cache) = Some r \<Longrightarrow> snd (getFromCache now key cache) = cache"
  by (auto simp: getFromCache_def split: option.splits if_splits)

lemma onMessage_begin_hit:
  assumes "fst (getFromCache now (cacheKeyOf c) (analysisCache w)) = Some r"
  shows "onMessage_begin now c w = (Replied (Success r), w)"
proof -
  obtain x y where g: "getFromCache now (cacheKeyOf c) (analysisCache w) = (x, y)" by fastforce
  with assms have x: "x = Some r" by simp
  from g x getFromCache_hit_keeps [OF assms] have y: "y = analysisCache w" by simp
  show ?thesis
    using g x y
    by (cases c) (simp_all add: onMessage_begin_def cacheKeyOf_def handleTextAnalysis_begin_def
        handleImageAnalysis_begin_def Let_def)
qed

lemma onMessage_begin_miss:
  assumes "fst (getFromCache now (cacheKeyOf c) (analysisCache w)) = None"
  shows "fst (onMessage_begin now c w) = Awaiting (cacheKeyOf c)
       \<and> length (fetched (snd (onMessage_begin now c w))) = Suc (length (fetched w))
       \<and> butlast (fetched (snd (onMessage_begin now c w))) = fetched w
       \<and> analysisCache (snd (onMessage_begin now c w)) = map_delete (cacheKeyOf c) (analysisCache w)
       \<and> pendingRequests (snd (onMessage_begin now c w)) = pendingRequests w"
proof -
  obtain x y where g: "getFromCache now (cacheKeyOf c) (analysisCache w) = (x, y)" by fastforce
  with assms have x: "x = None" by simp
  from g x getFromCache_miss_deletes [OF assms] have y: "y = map_delete (cacheKeyOf c) (analysisCache w)" by simp
  show ?thesis
    using g x y
    by (cases c) (simp_all add: onMessage_begin_def cacheKeyOf_def handleTextAnalysis_begin_def
        handleImageAnalysis_begin_def Let_def)
qed


lemma setCache_stores:
  "map_get key (setCache now key d cache) = Some \<lparr>data = d, timestamp = now\<rparr>"
  by (simp add: setCache_def Let_def)

lemma updateStats_keeps [simp]:
  "analysisCache (updateStats statName w) = analysisCache w"
  "fetched (updateStats statName w) = fetched w"
  "pendingRequests (updateStats statName w) = pendingRequests w"
  by (simp_all add: updateStats_def Let_def)

lemma onMessage_resume_success:
  assumes "makeApiRequest outcome = Inr result"
  shows "fst (onMessage_resume now c outcome w) = Success result"
    and "map_get (cacheKeyOf c) (analysisCache (snd (onMessage_resume now c outcome w)))
           = Some \<lparr>data = result, timestamp = now\<rparr>"
    and "fetched (snd (onMessage_resume now c outcome w)) = fetched w"
  using assms
  by (cases c; simp add: onMessage_resume_def handleTextAnalysis_resume_def
        handleImageAnalysis_resume_def Let_def setCache_stores)+

text \<open>
  C6.  \<open>getFromCache\<close> returns a result exactly when the key has an entry whose age
  \<open>now - timestamp\<close> is below \<open>CACHE_DURATION\<close>; on a miss the key is deleted.  A text
  or image call whose key has an entry inside the window answers from the cache and
  issues no gateway request; with the entry outside the window it issues one request
  and the stale entry is gone.  The handler itself makes that entry: resumed at time
  \<open>t1\<close> with a result from the gateway it stores the result under the call's key with
  timestamp \<open>t1\<close>, so the same call at a time \<open>t2\<close> with \<open>t2 - t1\<close> below
  \<open>CACHE_DURATION\<close> is answered with that result and no further request, and at a later
  \<open>t2\<close> it issues a fresh request.
\<close>

theorem cache_hit_iff_within_validity_window:
  "(fst (getFromCache now key cache) = Some r \<longleftrightarrow>
      (\<exists>e. map_get key cache = Some e \<and> data e = r \<and> now - timestamp e < CACHE_DURATION))
   \<and> (fst (getFromCache now key cache) = None \<longrightarrow>
         snd (getFromCache now key cache) = map_delete key cache
         \<and> map_get key (snd (getFromCache now key cache)) = None)
   \<and> (\<forall>e. map_get (cacheKeyOf c) (analysisCache w) = Some e \<and> t - timestamp e < CACHE_DURATION \<longrightarrow>
         onMessage_begin t c w = (Replied (Success (data e)), w))
   \<and> (\<forall>e. map_get (cacheKeyOf c) (analysisCache w) = Some e \<and> \<not> t - timestamp e < CACHE_DURATION \<longrightarrow>
         fst (onMessage_begin t c w) = Awaiting (cacheKeyOf c)
         \<and> length (fetched (snd (onMessage_begin t c w))) = Suc (length (fetched w))
         \<and> butlast (fetched (snd (onMessage_begin t c w))) = fetched w
         \<and> map_get (cacheKeyOf c) (analysisCache (snd (onMessage_begin t c w))) = None)
   \<and> (makeApiRequest outcome = Inr result \<longrightarrow>
         fst (onMessage_resume t1 c outcome w) = Success result
         \<and> map_get (cacheKeyOf c) (analysisCache (snd (onMessage_resume t1 c outcome w)))
             = Some \<lparr>data = result, timestamp = t1\<rparr>
         \<and> fetched (snd (onMessage_resume t1 c outcome w)) = fetched w
         \<and> (t2 - t1 < CACHE_DURATION \<longrightarrow>
               onMessage_begin t2 c (snd (onMessage_resume t1 c outcome w))
                 = (Replied (Success result), snd (onMessage_resume t1 c outcome w)))
         \<and> (\<not> t2 - t1 < CACHE_DURATION \<longrightarrow>
               fst (onMessage_begin t2 c (snd (onMessage_resume t1 c outcome w))) = Awaiting (cacheKeyOf c)
               \<and> length (fetched (snd (onMessage_begin t2 c (snd (onMessage_resume t1 c outcome w)))))
                   = Suc (length (fetched w))))"
proof (intro conjI allI impI)
  show "fst (getFromCache now key cache) = Some r \<longleftrightarrow>
      (\<exists>e. map_get key cache = Some e \<and> data e = r \<and> now - timestamp e < CACHE_DURATION)"
    by (rule getFromCache_hit_iff)
next
  assume "fst (getFromCache now key cache) = None"
  then show "snd (getFromCache now key cache) = map_delete key cache"
    by (rule getFromCache_miss_deletes)
next
  assume "fst (getFromCache now key cache) = None"
  then show "map_get key (snd (getFromCache now key cache)) = None"
    by (simp add: getFromCache_miss_deletes map_get_map_delete_same)
next
  fix e assume "map_get (cacheKeyOf c) (analysisCache w) = Some e \<and> t - timestamp e < CACHE_DURATION"
  then have "fst (getFromCache t (cacheKeyOf c) (analysisCache w)) = Some (data e)"
    by (simp add: getFromCache_def)
  then show "onMessage_begin t c w = (Replied (Success (data e)), w)"
    by (rule onMessage_begin_hit)
next
  fix e assume "map_get (cacheKeyOf c) (analysisCache w) = Some e \<and> \<not> t - timestamp e < CACHE_DURATION"
  then have miss: "fst (getFromCache t (cacheKeyOf c) (analysisCache w)) = None"
    by (simp add: getFromCache_def)
  note m = onMessage_begin_miss [OF miss]
  from m show "fst (onMessage_begin t c w) = Awaiting (cacheKeyOf c)" by blast
  from m show "length (fetched (snd (onMessage_begin t c w))) = Suc (length (fetched w))" by blast
  from m show "butlast (fetched (snd (onMessage_begin t c w))) = fetched w" by blast
  from m show "map_get (cacheKeyOf c) (analysisCache (snd (onMessage_begin t c w))) = None"
    by (simp add: map_get_map_delete_same)
next
  assume ok: "makeApiRequest outcome = Inr result"
  note R = onMessage_resume_success [OF ok, where now = t1 and c = c and w = w]
  from R(1) show "fst (onMessage_resume t1 c outcome w) = Success result" .
  from R(2) show "map_get (cacheKeyOf c) (analysisCache (snd (onMessage_resume t1 c outcome w)))
             = Some \<lparr>data = result, timestamp = t1\<rparr>" .
  from R(3) show "fetched (snd (onMessage_resume t1 c outcome w)) = fetched w" .
  {
    assume young: "t2 - t1 < CACHE_DURATION"
    with R(2) have "fst (getFromCache t2 (cacheKeyOf c)
                          (analysisCache (snd (onMessage_resume t1 c outcome w)))) = Some result"
      by (simp add: getFromCache_def)
    then show "onMessage_begin t2 c (snd (onMessage_resume t1 c outcome w))
                 = (Replied (Success result), snd (onMessage_resume t1 c outcome w))"
      by (rule onMessage_begin_hit)
  }
  {
    assume old: "\<not> t2 - t1 < CACHE_DURATION"
    with R(2) have miss: "fst (getFromCache t2 (cacheKeyOf c)
                          (analysisCache (snd (onMessage_resume t1 c outcome w)))) = None"
      by (simp add: getFromCache_def)
    note m = onMessage_begin_miss [OF miss]
    from m show "fst (onMessage_begin t2 c (snd (onMessage_resume t1 c outcome w))) = Awaiting (cacheKeyOf c)"
      by blast
    from m R(3) show "length (fetched (snd (onMessage_begin t2 c (snd (onMessage_resume t1 c outcome w)))))
                   = Suc (length (fetched w))"
      by simp
  }
qed

theorem cache_hit_iff_within_validity_window_witness:
  "fst (onMessage_begin 0 (AnalyzeText helloRequest) freshWorker)
     = Awaiting (cacheKeyOf (AnalyzeText helloRequest))
   \<and> length (fetched (snd (onMessage_begin 0 (AnalyzeText helloRequest) freshWorker))) = 1
   \<and> makeApiRequest (Responded 200 (Some safeVerdict)) = Inr safeVerdict
   \<and> map_get (cacheKeyOf (AnalyzeText helloRequest))
        (analysisCache (snd (onMessage_resume 10 (AnalyzeText helloRequest) (Responded 200 (Some safeVerdict))
           (snd (onMessage_begin 0 (AnalyzeText helloRequest) freshWorker)))))
       = Some \<lparr>data = safeVerdict, timestamp = 10\<rparr>
   \<and> 300009 - 10 < CACHE_DURATION
   \<and> onMessage_begin 300009 (AnalyzeText helloRequest)
        (snd (onMessage_resume 10 (AnalyzeText helloRequest) (Responded 200 (Some safeVerdict))
           (snd (onMessage_begin 0 (AnalyzeText helloRequest) freshWorker))))
       = (Replied (Success safeVerdict),
          snd (onMessage_resume 10 (AnalyzeText helloRequest) (Responded 200 (Some safeVerdict))
           (snd (onMessage_begin 0 (AnalyzeText helloRequest) freshWorker))))
   \<and> \<not> 300010 - 10 < CACHE_DURATION
   \<and> length (fetched (snd (onMessage_begin 300010 (AnalyzeText helloRequest)
        (snd (onMessage_resume 10 (AnalyzeText helloRequest) (Responded 200 (Some safeVerdict))
           (snd (onMessage_begin 0 (AnalyzeText helloRequest) freshWorker))))))) = 2
   \<and> fst (getFromCache 300000 (0::nat) [(0, \<lparr>data = safeVerdict, timestamp = 0\<rparr>)]) = None
   \<and> map_get (0::nat) (snd (getFromCache 300000 0 [(0, \<lparr>data = safeVerdict, timestamp = 0\<rparr>)])) = None"
proof -
  let ?c = "AnalyzeText helloRequest"
  let ?out = "Responded 200 (Some safeVerdict)"
  let ?w1 = "snd (onMessage_begin 0 ?c freshWorker)"
  let ?w2 = "snd (onMessage_resume 10 ?c ?out ?w1)"
  let ?E = "\<lparr>data = safeVerdict, timestamp = 0\<rparr>"
  have miss0: "fst (getFromCache 0 (cacheKeyOf ?c) (analysisCache freshWorker)) = None"
    by (simp add: getFromCache_def freshWorker_def)
  note b = onMessage_begin_miss [OF miss0]
  from b have a1: "fst (onMessage_begin 0 ?c freshWorker) = Awaiting (cacheKeyOf ?c)" by blast
  from b have a2: "length (fetched ?w1) = 1" by (simp add: freshWorker_def)
  have ok: "makeApiRequest ?out = Inr safeVerdict"
    by (simp add: makeApiRequest_def response_ok_def)
  have young: "(300009::int) - 10 < CACHE_DURATION" by (simp add: CACHE_DURATION_def)
  have old: "\<not> (300010::int) - 10 < CACHE_DURATION" by (simp add: CACHE_DURATION_def)
  have miss: "fst (getFromCache 300000 (0::nat) [(0, ?E)]) = None"
    by (simp add: getFromCache_def CACHE_DURATION_def)
  note T1 = cache_hit_iff_within_validity_window
    [where now = 300000 and key = "0::nat" and cache = "[(0, ?E)]" and r = safeVerdict and c = ?c
       and w = ?w1 and t = 0 and outcome = ?out and result = safeVerdict and ?t1.0 = 10 and ?t2.0 = 300009]
  note T2 = cache_hit_iff_within_validity_window
    [where now = 300000 and key = "0::nat" and cache = "[(0, ?E)]" and r = safeVerdict and c = ?c
       and w = ?w1 and t = 0 and outcome = ?out and result = safeVerdict and ?t1.0 = 10 and ?t2.0 = 300010]
  from T1 ok have s: "map_get (cacheKeyOf ?c) (analysisCache ?w2) = Some \<lparr>data = safeVerdict, timestamp = 10\<rparr>"
    by blast
  from T1 ok young have h: "onMessage_begin 300009 ?c ?w2 = (Replied (Success safeVerdict), ?w2)"
    by blast
  from T2 ok old have "length (fetched (snd (onMessage_begin 300010 ?c ?w2))) = Suc (length (fetched ?w1))"
    by blast
  with a2 have f: "length (fetched (snd (onMessage_begin 300010 ?c ?w2))) = 2" by simp
  from T1 miss have c: "map_get (0::nat) (snd (getFromCache 300000 0 [(0, ?E)])) = None"
    by blast
  from a1 a2 ok s young h old f miss c show ?thesis by blast
qed

lemma overlappingCalls_absent:
  assumes "\<forall>(now, c) \<in> set cs. cacheKeyOf c = key"
    and "map_get key (analysisCache w) = None"
  shows "length (fetched (overlappingCalls cs w)) = length (fetched w) + length cs
       \<and> pendingRequests (overlappingCalls cs w) = pendingRequests w
       \<and> map_get key (analysisCache (overlappingCalls cs w)) = None"
  using assms
proof (induction cs arbitrary: w)
  case Nil
  then show ?case by simp
next
  case (Cons a cs)
  obtain now c where a: "a = (now, c)" by (cases a)
  with Cons.prems have k: "cacheKeyOf c = key" by simp
  with Cons.prems have miss: "fst (getFromCache now (cacheKeyOf c) (analysisCache w)) = None"
    by (simp add: getFromCache_def)
  note m = onMessage_begin_miss [OF miss]
  let ?w' = "snd (onMessage_begin now c w)"
  from m k Cons.prems have abs: "map_get key (analysisCache ?w') = None"
    by (simp add: map_get_map_delete_same)
  from Cons.prems have rest: "\<forall>(now, c) \<in> set cs. cacheKeyOf c = key" by simp
  from Cons.IH [OF rest abs] m a show ?case by simp
qed

text \<open>
  C1, as the code has it.  No call is coalesced: overlapping calls with one cache key
  that is not cached issue one gateway request each, and \<open>pendingRequests\<close> is never
  written.
\<close>

theorem overlapping_calls_each_invoke_gateway:
  assumes "\<forall>(now, c) \<in> set cs. cacheKeyOf c = key"
    and "map_get key (analysisCache w) = None"
  shows "length (fetched (overlappingCalls cs w)) = length (fetched w) + length cs
       \<and> pendingRequests (overlappingCalls cs w) = pendingRequests w"
  using overlappingCalls_absent [OF assms] by blast

theorem overlapping_calls_each_invoke_gateway_witness:
  "map_get (cacheKeyOf (AnalyzeText helloRequest)) (analysisCache freshWorker) = None
   \<and> length (fetched (overlappingCalls
        [(0, AnalyzeText helloRequest), (1, AnalyzeText helloRequest), (2, AnalyzeText helloRequest)]
        freshWorker)) = 3
   \<and> pendingRequests (overlappingCalls
        [(0, AnalyzeText helloRequest), (1, AnalyzeText helloRequest), (2, AnalyzeText helloRequest)]
        freshWorker) = []"
proof -
  let ?cs = "[(0::int, AnalyzeText helloRequest), (1, AnalyzeText helloRequest), (2, AnalyzeText helloRequest)]"
  have h1: "\<forall>(now, c) \<in> set ?cs. cacheKeyOf c = cacheKeyOf (AnalyzeText helloRequest)" by simp
  have h2: "map_get (cacheKeyOf (AnalyzeText helloRequest)) (analysisCache freshWorker) = None"
    by (simp add: freshWorker_def)
  note T = overlapping_calls_each_invoke_gateway [OF h1 h2]
  from T have
    "length (fetched (overlappingCalls ?cs freshWorker)) = length (fetched freshWorker) + length ?cs" ..
  then have r: "length (fetched (overlappingCalls ?cs freshWorker)) = 3" by (simp add: freshWorker_def)
  from T have "pendingRequests (overlappingCalls ?cs freshWorker) = pendingRequests freshWorker" ..
  then have q: "pendingRequests (overlappingCalls ?cs freshWorker) = []" by (simp add: freshWorker_def)
  show ?thesis by (rule conjI [OF h2 conjI [OF r q]])
qed

text \<open>
  C1 as stated fails: two overlapping calls with the same cache key issue two gateway
  requests, not one.
\<close>

theorem coalescing_counterexample:
  "cacheKeyOf (AnalyzeText helloRequest) = cacheKeyOf (AnalyzeText helloRequest)
   \<and> \<not> length (fetched (overlappingCalls
        [(0, AnalyzeText helloRequest), (1, AnalyzeText helloRequest)] freshWorker)) \<le> 1"
proof -
  let ?cs = "[(0::int, AnalyzeText helloRequest), (1, AnalyzeText helloRequest)]"
  have h1: "\<forall>(now, c) \<in> set ?cs. cacheKeyOf c = cacheKeyOf (AnalyzeText helloRequest)" by simp
  have h2: "map_get (cacheKeyOf (AnalyzeText helloRequest)) (analysisCache freshWorker) = None"
    by (simp add: freshWorker_def)
  from overlappingCalls_absent [OF h1 h2] have
    "length (fetched (overlappingCalls ?cs freshWorker)) = 2" by (simp add: freshWorker_def)
  then show ?thesis by simp
qed

section \<open>Properties of the blocking state machine\<close>

lemma getBlockingMethod_deterministic:
  "confidence r = confidence r' \<Longrightarrow> flagged_categories r = flagged_categories r' \<Longrightarrow>
   getBlockingMethod type r = getBlockingMethod type' r'"
  by (simp add: getBlockingMethod_def)

lemma getBlockingMethod_high:
  "confidence r = Some c \<Longrightarrow> c > 8 / 10 \<Longrightarrow> getBlockingMethod type r = Replace"
  by (simp add: getBlockingMethod_def numGreater_def)

lemma getBlockingMethod_severe:
  "flagged_categories r = Some cats \<Longrightarrow> ''severe_toxic'' \<in> set cats \<Longrightarrow>
   getBlockingMethod type r = Replace"
  by (simp add: getBlockingMethod_def)

lemma getBlockingMethod_middle:
  "confidence r = Some c \<Longrightarrow> 6 / 10 < c \<Longrightarrow> c \<le> 8 / 10 \<Longrightarrow>
   ''severe_toxic'' \<notin> set (case flagged_categories r of Some cs \<Rightarrow> cs | None \<Rightarrow> []) \<Longrightarrow>
   getBlockingMethod type r = Blur"
  by (simp add: getBlockingMethod_def numGreater_def)

lemma getBlockingMethod_low:
  "confidence r = None \<or> (confidence r = Some c \<and> c \<le> 6 / 10) \<Longrightarrow>
   getBlockingMethod type r = Replace"
  by (auto simp: getBlockingMethod_def numGreater_def)

lemma getBlockingMethod_never_hide: "getBlockingMethod type r \<noteq> Hide"
  by (simp add: getBlockingMethod_def Let_def)

text \<open>
  C2.  \<open>getBlockingMethod\<close> depends on the confidence and the flagged categories only, not
  on the content type or the safety flag.  It answers \<open>replace\<close> for a confidence above
  0.8 and whenever \<open>severe_toxic\<close> is flagged, \<open>blur\<close> for a confidence above 0.6 and up
  to 0.8 without that category, and \<open>replace\<close> for every lower or missing confidence;
  it never answers \<open>hide\<close>.
\<close>

theorem getBlockingMethod_rule:
  "(confidence r = confidence r' \<and> flagged_categories r = flagged_categories r' \<longrightarrow>
       getBlockingMethod type r = getBlockingMethod type' r')
   \<and> (confidence r = Some c \<and> c > 8 / 10 \<longrightarrow> getBlockingMethod type r = Replace)
   \<and> (flagged_categories r = Some cats \<and> ''severe_toxic'' \<in> set cats \<longrightarrow>
         getBlockingMethod type r = Replace)
   \<and> (confidence r = Some c \<and> 6 / 10 < c \<and> c \<le> 8 / 10
        \<and> ''severe_toxic'' \<notin> set (case flagged_categories r of Some cs \<Rightarrow> cs | None \<Rightarrow> []) \<longrightarrow>
         getBlockingMethod type r = Blur)
   \<and> ((confidence r = None \<or> (confidence r = Some c \<and> c \<le> 6 / 10)) \<longrightarrow>
         getBlockingMethod type r = Replace)
   \<and> getBlockingMethod type r \<noteq> Hide"
  using getBlockingMethod_deterministic [of r r' type type']
    getBlockingMethod_high [of r c type] getBlockingMethod_severe [of r cats type]
    getBlockingMethod_middle [of r c type] getBlockingMethod_low [of r c type]
    getBlockingMethod_never_hide [of type r]
  by blast

theorem getBlockingMethod_rule_witness:
  "getBlockingMethod TextType \<lparr>is_safe = False, confidence = Some (85 / 100), flagged_categories = Some [''severe_toxic'']\<rparr> = Replace
   \<and> getBlockingMethod ImageType \<lparr>is_safe = False, confidence = Some (65 / 100), flagged_categories = None\<rparr> = Blur
   \<and> getBlockingMethod TextType \<lparr>is_safe = False, confidence = Some (3 / 10), flagged_categories = Some []\<rparr> = Replace
   \<and> getBlockingMethod TextType \<lparr>is_safe = False, confidence = Some (65 / 100), flagged_categories = Some [''severe_toxic'']\<rparr> = Replace
   \<and> getBlockingMethod TextType \<lparr>is_safe = False, confidence = Some (65 / 100), flagged_categories = None\<rparr>
       = getBlockingMethod ImageType \<lparr>is_safe = True, confidence = Some (65 / 100), flagged_categories = None\<rparr>"
proof -
  let ?hi = "\<lparr>is_safe = False, confidence = Some (85 / 100), flagged_categories = Some [''severe_toxic'']\<rparr>"
  let ?mid = "\<lparr>is_safe = False, confidence = Some (65 / 100), flagged_categories = None\<rparr>"
  let ?mid' = "\<lparr>is_safe = True, confidence = Some (65 / 100), flagged_categories = None\<rparr>"
  let ?low = "\<lparr>is_safe = False, confidence = Some (3 / 10), flagged_categories = Some []\<rparr>"
  let ?sev = "\<lparr>is_safe = False, confidence = Some (65 / 100), flagged_categories = Some [''severe_toxic'']\<rparr>"
  have a: "getBlockingMethod TextType ?hi = Replace"
    using getBlockingMethod_rule [of ?hi ?hi TextType TextType "85 / 100" "[''severe_toxic'']"] by simp
  have b: "getBlockingMethod ImageType ?mid = Blur"
    using getBlockingMethod_rule [of ?mid ?mid ImageType ImageType "65 / 100" "[]"] by simp
  have c: "getBlockingMethod TextType ?low = Replace"
    using getBlockingMethod_rule [of ?low ?low TextType TextType "3 / 10" "[]"] by simp
  have d: "getBlockingMethod TextType ?sev = Replace"
    using getBlockingMethod_rule [of ?sev ?sev TextType TextType "65 / 100" "[''severe_toxic'']"] by simp
  have e: "getBlockingMethod TextType ?mid = getBlockingMethod ImageType ?mid'"
    using getBlockingMethod_rule [of ?mid ?mid' TextType ImageType "65 / 100" "[]"] by simp
  from a b c d e show ?thesis by blast
qed

lemma blockedElements_updatePage [simp]: "blockedElements (updatePage i f p) = blockedElements p"
  by (simp add: updatePage_def)

lemma blockedElements_replaceChild:
  "replaceChild new old p = Inr p' \<Longrightarrow> blockedElements p' = blockedElements p"
  by (auto simp: replaceChild_def Let_def split: option.splits if_splits)

lemma blockedElements_insertBefore:
  "insertBefore new old p = Inr p' \<Longrightarrow> blockedElements p' = blockedElements p"
  by (auto simp: insertBefore_def Let_def split: option.splits if_splits)

lemma blockedElements_replaceContent:
  "blockedElements (fst (replaceContent el type r p)) = blockedElements p"
  by (auto simp: replaceContent_def createReplacementElement_def Let_def
      dest: blockedElements_replaceChild split: sum.splits)

lemma blockedElements_blurContent:
  "blockedElements (fst (blurContent el type r p)) = blockedElements p"
  by (simp add: blurContent_def classList_add_def Let_def)

lemma blockedElements_hideContent:
  "blockedElements (fst (hideContent el type r p)) = blockedElements p"
  by (auto simp: hideContent_def setAttribute_def Let_def
      dest: blockedElements_insertBefore split: sum.splits)

lemma handleUnsafeContent_blocks:
  "el \<in> blockedElements (fst (handleUnsafeContent el type r p))"
  by (simp add: handleUnsafeContent_def Let_def blockedElements_replaceContent
      blockedElements_blurContent blockedElements_hideContent split: blockingMethod.splits)

lemma handleUnsafeContent_already:
  "el \<in> blockedElements p \<Longrightarrow> handleUnsafeContent el type r p = (p, None)"
  by (simp add: handleUnsafeContent_def)

text \<open>
  C8.  \<open>blockedElements\<close> is a set, so an element has at most one record in it.  An
  unsafe-content event for an element that is in \<open>blockedElements\<close> returns at once and
  leaves the whole page state as it was; after any handling the element is in the set, so
  handling it a second time changes nothing.
\<close>

theorem handleUnsafeContent_already_blocked_noop:
  "(el \<in> blockedElements p \<longrightarrow> handleUnsafeContent el type r p = (p, None))
   \<and> el \<in> blockedElements (fst (handleUnsafeContent el type r p))
   \<and> handleUnsafeContent el type' r' (fst (handleUnsafeContent el type r p))
       = (fst (handleUnsafeContent el type r p), None)"
  using handleUnsafeContent_already [of el p type r]
    handleUnsafeContent_blocks [of el type r p]
    handleUnsafeContent_already [OF handleUnsafeContent_blocks [of el type r p], of type' r']
  by blast

theorem handleUnsafeContent_already_blocked_noop_witness:
  "3 \<in> blockedElements (samplePage\<lparr>blockedElements := {3}\<rparr>)
   \<and> handleUnsafeContent 3 TextType unsafeVerdict (samplePage\<lparr>blockedElements := {3}\<rparr>)
       = (samplePage\<lparr>blockedElements := {3}\<rparr>, None)"
proof -
  have a: "3 \<in> blockedElements (samplePage\<lparr>blockedElements := {3}\<rparr>)" by simp
  from handleUnsafeContent_already_blocked_noop
         [of 3 "samplePage\<lparr>blockedElements := {3}\<rparr>" TextType unsafeVerdict TextType unsafeVerdict] a
  have b: "handleUnsafeContent 3 TextType unsafeVerdict (samplePage\<lparr>blockedElements := {3}\<rparr>)
       = (samplePage\<lparr>blockedElements := {3}\<rparr>, None)" by blast
  from a b show ?thesis by blast
qed


section \<open>Gateway failures\<close>

lemma makeApiRequest_failures:
  "makeApiRequest Rejected = Inl FetchError"
  "\<not> response_ok status \<Longrightarrow> makeApiRequest (Responded status body) = Inl (ApiRequestFailed status)"
  by (simp_all add: makeApiRequest_def)

lemma resume_failure_text:
  "makeApiRequest outcome = Inl err \<Longrightarrow> handleTextAnalysis_resume now key outcome w = (Failure err, w)"
  by (simp add: handleTextAnalysis_resume_def)

lemma resume_failure_image:
  "makeApiRequest outcome = Inl err \<Longrightarrow> handleImageAnalysis_resume now key outcome w = (Failure err, w)"
  by (simp add: handleImageAnalysis_resume_def)

lemma processQueue_continue_keeps:
  "dispatched (processQueue_continue p) = dispatched p
   \<and> blockedElements (processQueue_continue p) = blockedElements p
   \<and> replacementElements (processQueue_continue p) = replacementElements p
   \<and> document (processQueue_continue p) = document p
   \<and> detached (processQueue_continue p) = detached p"
  by (simp add: processQueue_continue_def)

text \<open>
  C4.  A rejected \<open>fetch\<close> and a response whose status is not a success make
  \<open>makeApiRequest\<close> throw.  The handler then answers with an unsuccessful response and
  leaves the worker's state, the cache included, as it was.  On that response the scanner
  dispatches no unsafe-content event and neither the blocked elements, the replacements
  nor the page's trees change.
\<close>

theorem gateway_failure_fails_open:
  "makeApiRequest Rejected = Inl FetchError
   \<and> (\<not> response_ok status \<longrightarrow> makeApiRequest (Responded status body) = Inl (ApiRequestFailed status))
   \<and> (makeApiRequest outcome = Inl err \<longrightarrow>
         handleTextAnalysis_resume now key outcome w = (Failure err, w)
         \<and> handleImageAnalysis_resume now key outcome w = (Failure err, w))
   \<and> analyzeText_resume el (Failure err) p = processQueue_continue p
   \<and> analyzeImage_resume el (Failure err) p = processQueue_continue p
   \<and> dispatched (processQueue_continue p) = dispatched p
   \<and> blockedElements (processQueue_continue p) = blockedElements p
   \<and> replacementElements (processQueue_continue p) = replacementElements p
   \<and> document (processQueue_continue p) = document p
   \<and> detached (processQueue_continue p) = detached p"
  using makeApiRequest_failures(2) [of status body] resume_failure_text [of outcome err now key w]
    resume_failure_image [of outcome err now key w] processQueue_continue_keeps [of p]
  by (simp add: makeApiRequest_failures(1) analyzeText_resume_def analyzeImage_resume_def)

theorem gateway_failure_fails_open_witness:
  "\<not> response_ok 500
   \<and> makeApiRequest (Responded 500 None) = Inl (ApiRequestFailed 500)
   \<and> handleTextAnalysis_resume 5 (cacheKeyOf (AnalyzeText helloRequest)) (Responded 500 None) freshWorker
       = (Failure (ApiRequestFailed 500), freshWorker)
   \<and> handleImageAnalysis_resume 5 (cacheKeyOf (AnalyzeText helloRequest)) (Responded 500 None) freshWorker
       = (Failure (ApiRequestFailed 500), freshWorker)
   \<and> analyzeText_resume 3 (Failure (ApiRequestFailed 500)) samplePage = processQueue_continue samplePage
   \<and> dispatched (processQueue_continue samplePage) = dispatched samplePage
   \<and> blockedElements (processQueue_continue samplePage) = blockedElements samplePage"
proof -
  note T = gateway_failure_fails_open
    [of 500 None "Responded 500 None" "ApiRequestFailed 500" 5
        "cacheKeyOf (AnalyzeText helloRequest)" freshWorker 3 samplePage]
  have a: "\<not> response_ok 500" by (simp add: response_ok_def)
  from T a have b: "makeApiRequest (Responded 500 None) = Inl (ApiRequestFailed 500)" by blast
  from T b have c: "handleTextAnalysis_resume 5 (cacheKeyOf (AnalyzeText helloRequest)) (Responded 500 None) freshWorker
       = (Failure (ApiRequestFailed 500), freshWorker)" by blast
  from T b have d: "handleImageAnalysis_resume 5 (cacheKeyOf (AnalyzeText helloRequest)) (Responded 500 None) freshWorker
       = (Failure (ApiRequestFailed 500), freshWorker)" by blast
  from T have e: "analyzeText_resume 3 (Failure (ApiRequestFailed 500)) samplePage = processQueue_continue samplePage"
    by blast
  from T have f: "dispatched (processQueue_continue samplePage) = dispatched samplePage" by blast
  from T have g: "blockedElements (processQueue_continue samplePage) = blockedElements samplePage" by blast
  from a b c d e f g show ?thesis by blast
qed

section \<open>The DOM under a property write\<close>

lemma textContent_updateElement [simp]: "textContent (updateElement i f t) = textContent t"
  by (induction t) (simp_all add: o_def cong: map_cong)

lemma nodeId_updateElement:
  "(\<And>e. nid (f e) = nid e) \<Longrightarrow> nodeId (updateElement i f t) = nodeId t"
  by (cases t) (simp_all add: applyTo_def)

lemma subtrees_updateElement:
  "subtrees (map (applyTo i f) anc) (updateElement i f t)
     = map (\<lambda>(a, e, cs). (map (applyTo i f) a, applyTo i f e, map (updateElement i f) cs))
         (subtrees anc t)"
proof (induction t arbitrary: anc)
  case (Element e cs)
  let ?g = "\<lambda>(a, e, cs). (map (applyTo i f) a, applyTo i f e, map (updateElement i f) cs)"
  have "\<And>c. c \<in> set cs \<Longrightarrow>
          subtrees (applyTo i f e # map (applyTo i f) anc) (updateElement i f c)
            = map ?g (subtrees (e # anc) c)"
    using Element.IH [of _ "e # anc"] by simp
  then have "map (\<lambda>c. subtrees (applyTo i f e # map (applyTo i f) anc) (updateElement i f c)) cs
           = map (\<lambda>c. map ?g (subtrees (e # anc) c)) cs"
    by (intro map_cong refl)
  then have c: "concat (map (\<lambda>c. subtrees (applyTo i f e # map (applyTo i f) anc) (updateElement i f c)) cs)
           = concat (map (\<lambda>c. map ?g (subtrees (e # anc) c)) cs)"
    by (rule arg_cong [where f = concat])
  have l: "concat (map (subtrees (applyTo i f e # map (applyTo i f) anc)) (map (updateElement i f) cs))
         = concat (map (\<lambda>c. subtrees (applyTo i f e # map (applyTo i f) anc) (updateElement i f c)) cs)"
    by (simp add: o_def)
  have r: "map ?g (concat (map (subtrees (e # anc)) cs))
         = concat (map (\<lambda>c. map ?g (subtrees (e # anc) c)) cs)"
    by (simp add: map_concat o_def)
  from l c r show ?case by simp
next
  case (TextNode s)
  show ?case by simp
qed

lemma find_map_option: "find P (map g xs) = map_option g (find (P \<circ> g) xs)"
  by (induction xs) simp_all

lemma entries_updatePage:
  "concat (map (subtrees []) (document (updatePage i f p) # detached (updatePage i f p)))
     = map (\<lambda>(a, e, cs). (map (applyTo i f) a, applyTo i f e, map (updateElement i f) cs))
         (concat (map (subtrees []) (document p # detached p)))"
proof -
  have one: "\<And>t. subtrees [] (updateElement i f t)
     = map (\<lambda>(a, e, cs). (map (applyTo i f) a, applyTo i f e, map (updateElement i f) cs)) (subtrees [] t)"
    using subtrees_updateElement [of i f "[]"] by simp
  show ?thesis
    by (simp add: updatePage_def one map_concat o_def)
qed

lemma lookupElement_updatePage:
  assumes "\<And>e. nid (f e) = nid e"
  shows "lookupElement i (updatePage j f p)
       = map_option (\<lambda>(a, e, cs). (map (applyTo j f) a, applyTo j f e, map (updateElement j f) cs))
           (lookupElement i p)"
proof -
  have "(\<lambda>(a, e, cs). nid e = i) \<circ> (\<lambda>(a, e, cs). (map (applyTo j f) a, applyTo j f e, map (updateElement j f) cs))
      = (\<lambda>(a, e, cs). nid e = i)"
    using assms by (auto simp: fun_eq_iff applyTo_def)
  then show ?thesis
    by (simp only: lookupElement_def entries_updatePage find_map_option)
qed

lemma lookupElement_nid: "lookupElement i p = Some (a, e, cs) \<Longrightarrow> nid e = i"
  by (auto simp: lookupElement_def find_Some_iff)

lemma matchesSimple_mark:
  assumes "s \<noteq> HasAttribute name" "name \<noteq> ''id''"
  shows "matchesSimple s (applyTo j (\<lambda>e. e\<lparr>attributes := map_set name v (attributes e)\<rparr>) e)
       = matchesSimple s e"
  using assms by (cases s) (auto simp: matchesSimple_def applyTo_def)

lemma matchesAncestors_mark:
  assumes "\<forall>s \<in> set ss. s \<noteq> HasAttribute name" "name \<noteq> ''id''"
  shows "matchesAncestors ss (map (applyTo j (\<lambda>e. e\<lparr>attributes := map_set name v (attributes e)\<rparr>)) anc)
       = matchesAncestors ss anc"
  using assms
  by (induction ss anc rule: matchesAncestors.induct) (simp_all add: matchesSimple_mark)

lemma matches_mark:
  assumes "\<forall>s \<in> set sel. s \<noteq> HasAttribute name" "name \<noteq> ''id''"
  shows "matches sel (map (applyTo j (\<lambda>e. e\<lparr>attributes := map_set name v (attributes e)\<rparr>)) anc)
           (applyTo j (\<lambda>e. e\<lparr>attributes := map_set name v (attributes e)\<rparr>) e)
       = matches sel anc e"
proof (cases "rev sel")
  case Nil
  then show ?thesis by (simp add: matches_def)
next
  case (Cons s ss)
  then have "set sel = insert s (set ss)" by (metis list.simps(15) set_rev)
  with assms have "s \<noteq> HasAttribute name" "\<forall>s \<in> set ss. s \<noteq> HasAttribute name" by auto
  with Cons assms(2) show ?thesis
    by (simp add: matches_def matchesSimple_mark matchesAncestors_mark)
qed

lemma matchesAny_mark:
  assumes "\<forall>sel \<in> set sels. \<forall>s \<in> set sel. s \<noteq> HasAttribute name" "name \<noteq> ''id''"
  shows "matchesAny sels (map (applyTo j (\<lambda>e. e\<lparr>attributes := map_set name v (attributes e)\<rparr>)) anc)
           (applyTo j (\<lambda>e. e\<lparr>attributes := map_set name v (attributes e)\<rparr>) e)
       = matchesAny sels anc e"
  using assms by (simp add: matchesAny_def matches_mark)

lemma closestIn_mark:
  assumes "\<forall>sel \<in> set sels. \<forall>s \<in> set sel. s \<noteq> HasAttribute name" "name \<noteq> ''id''"
  shows "closestIn sels (map (applyTo j (\<lambda>e. e\<lparr>attributes := map_set name v (attributes e)\<rparr>)) xs)
       = closestIn sels xs"
  using assms by (induction xs) (simp_all add: matchesAny_mark)

lemma map_filter_tl_map:
  "map h (filter P (tl (map g xs))) = map (h \<circ> g) (filter (P \<circ> g) (tl xs))"
  by (cases xs) (simp_all add: filter_map)

lemma querySelectorAll_mark:
  assumes "\<forall>sel \<in> set sels. \<forall>s \<in> set sel. s \<noteq> HasAttribute name" "name \<noteq> ''id''"
  shows "querySelectorAll sels (map (applyTo j (\<lambda>e. e\<lparr>attributes := map_set name v (attributes e)\<rparr>)) anc)
           (updateElement j (\<lambda>e. e\<lparr>attributes := map_set name v (attributes e)\<rparr>) t)
       = querySelectorAll sels anc t"
proof -
  let ?f = "\<lambda>e. e\<lparr>attributes := map_set name v (attributes e)\<rparr>"
  let ?g = "\<lambda>(a, e, cs). (map (applyTo j ?f) a, applyTo j ?f e, map (updateElement j ?f) cs)"
  have P: "(\<lambda>(a, e, cs). matchesAny sels a e) \<circ> ?g = (\<lambda>(a, e, cs). matchesAny sels a e)"
    using assms by (auto simp: fun_eq_iff matchesAny_mark)
  have N: "(\<lambda>(a, e, cs). nid e) \<circ> ?g = (\<lambda>(a, e, cs). nid e)"
    by (auto simp: fun_eq_iff applyTo_def)
  have "querySelectorAll sels (map (applyTo j ?f) anc) (updateElement j ?f t)
      = map (\<lambda>(a, e, cs). nid e) (filter (\<lambda>(a, e, cs). matchesAny sels a e) (tl (map ?g (subtrees anc t))))"
    by (simp only: querySelectorAll_def subtrees_updateElement)
  also have "\<dots> = map ((\<lambda>(a, e, cs). nid e) \<circ> ?g)
                    (filter ((\<lambda>(a, e, cs). matchesAny sels a e) \<circ> ?g) (tl (subtrees anc t)))"
    by (rule map_filter_tl_map)
  also have "\<dots> = querySelectorAll sels anc t"
    by (simp only: P N querySelectorAll_def)
  finally show ?thesis .
qed

lemma plain_ignoreSelectors: "plainSelectors ignoreSelectors"
  by (simp add: plainSelectors_def ignoreSelectors_def)

lemma plain_textSelectors: "plainSelectors textSelectors"
  by (simp add: plainSelectors_def textSelectors_def)

lemma plain_imageSelectors: "plainSelectors imageSelectors"
  by (simp add: plainSelectors_def imageSelectors_def)

lemma plain_googleSelector: "selector \<in> set googleSelectors \<Longrightarrow> plainSelectors [selector]"
  by (auto simp: plainSelectors_def googleSelectors_def)

lemma dom_frame:
  assumes "document q = document p" "detached q = detached p"
  shows "lookupElement el q = lookupElement el p"
    and "closest sels el q = closest sels el p"
    and "hasAttribute el name q = hasAttribute el name p"
    and "shouldIgnoreElement el q = shouldIgnoreElement el p"
    and "extractText el q = extractText el p"
    and "shouldAnalyzeImage el q = shouldAnalyzeImage el p"
  using assms
  by (simp_all add: lookupElement_def closest_def hasAttribute_def shouldIgnoreElement_def
      extractText_def shouldAnalyzeImage_def)

lemma setAttribute_fields [simp]:
  "hostname (setAttribute j name v p) = hostname p"
  "settings (setAttribute j name v p) = settings p"
  "scanQueue (setAttribute j name v p) = scanQueue p"
  "queued (setAttribute j name v p) = queued p"
  "outbox (setAttribute j name v p) = outbox p"
  "queueTimeouts (setAttribute j name v p) = queueTimeouts p"
  "rescanIntervals (setAttribute j name v p) = rescanIntervals p"
  "isScanning (setAttribute j name v p) = isScanning p"
  "blockedElements (setAttribute j name v p) = blockedElements p"
  "replacementElements (setAttribute j name v p) = replacementElements p"
  "dispatched (setAttribute j name v p) = dispatched p"
  "nextId (setAttribute j name v p) = nextId p"
  "clickListeners (setAttribute j name v p) = clickListeners p"
  by (simp_all add: setAttribute_def updatePage_def)

lemma applyTo_attributes_fields [simp]:
  "nid (applyTo j (\<lambda>e. e\<lparr>attributes := g e\<rparr>) e) = nid e"
  "tagName (applyTo j (\<lambda>e. e\<lparr>attributes := g e\<rparr>) e) = tagName e"
  "classList (applyTo j (\<lambda>e. e\<lparr>attributes := g e\<rparr>) e) = classList e"
  "styleDisplay (applyTo j (\<lambda>e. e\<lparr>attributes := g e\<rparr>) e) = styleDisplay e"
  "sheetDisplay (applyTo j (\<lambda>e. e\<lparr>attributes := g e\<rparr>) e) = sheetDisplay e"
  "computedVisibility (applyTo j (\<lambda>e. e\<lparr>attributes := g e\<rparr>) e) = computedVisibility e"
  "src (applyTo j (\<lambda>e. e\<lparr>attributes := g e\<rparr>) e) = src e"
  "srcset (applyTo j (\<lambda>e. e\<lparr>attributes := g e\<rparr>) e) = srcset e"
  "width (applyTo j (\<lambda>e. e\<lparr>attributes := g e\<rparr>) e) = width e"
  "height (applyTo j (\<lambda>e. e\<lparr>attributes := g e\<rparr>) e) = height e"
  by (simp_all add: applyTo_def)

lemma computedDisplay_applyTo_attributes [simp]:
  "computedDisplay (applyTo j (\<lambda>e. e\<lparr>attributes := g e\<rparr>) e) = computedDisplay e"
  by (simp add: computedDisplay_def)

lemma lookupElement_setAttribute:
  "lookupElement el (setAttribute j name v p)
     = map_option (\<lambda>(a, e, cs).
         (map (applyTo j (\<lambda>e. e\<lparr>attributes := map_set name v (attributes e)\<rparr>)) a,
          applyTo j (\<lambda>e. e\<lparr>attributes := map_set name v (attributes e)\<rparr>) e,
          map (updateElement j (\<lambda>e. e\<lparr>attributes := map_set name v (attributes e)\<rparr>)) cs))
       (lookupElement el p)"
  unfolding setAttribute_def by (rule lookupElement_updatePage) simp

lemma lookupElement_setAttribute_None:
  "lookupElement el (setAttribute j name v p) = None \<longleftrightarrow> lookupElement el p = None"
  by (simp add: lookupElement_setAttribute)

lemma closest_setAttribute:
  assumes "\<forall>sel \<in> set sels. \<forall>s \<in> set sel. s \<noteq> HasAttribute name" "name \<noteq> ''id''"
  shows "closest sels el (setAttribute j name v p) = closest sels el p"
proof (cases "lookupElement el p")
  case None
  then show ?thesis by (simp add: closest_def lookupElement_setAttribute)
next
  case (Some x)
  obtain a e cs where x: "x = (a, e, cs)" by (cases x)
  let ?f = "\<lambda>e. e\<lparr>attributes := map_set name v (attributes e)\<rparr>"
  have "closestIn sels (applyTo j ?f e # map (applyTo j ?f) a) = closestIn sels (e # a)"
    using closestIn_mark [OF assms, of j v "e # a"] by simp
  with Some x show ?thesis by (simp add: closest_def lookupElement_setAttribute)
qed

lemma hasAttribute_setAttribute:
  "hasAttribute el name (setAttribute j name v p)
     = (hasAttribute el name p \<or> (el = j \<and> lookupElement el p \<noteq> None))"
proof (cases "lookupElement el p")
  case None
  then show ?thesis by (simp add: hasAttribute_def lookupElement_setAttribute)
next
  case (Some x)
  obtain a e cs where x: "x = (a, e, cs)" by (cases x)
  with Some have "nid e = el" by (simp add: lookupElement_nid)
  with Some x show ?thesis
    by (auto simp: hasAttribute_def lookupElement_setAttribute applyTo_def)
qed

lemma extractText_setAttribute: "extractText el (setAttribute j name v p) = extractText el p"
proof (cases "lookupElement el p")
  case None
  then show ?thesis by (simp add: extractText_def lookupElement_setAttribute)
next
  case (Some x)
  obtain a e cs where x: "x = (a, e, cs)" by (cases x)
  let ?f = "\<lambda>e. e\<lparr>attributes := map_set name v (attributes e)\<rparr>"
  have "textContent (updateElement j ?f (Element e cs)) = textContent (Element e cs)"
    by (rule textContent_updateElement)
  then have "textContent (Element (applyTo j ?f e) (map (updateElement j ?f) cs)) = textContent (Element e cs)"
    by simp
  with Some x show ?thesis by (simp add: extractText_def lookupElement_setAttribute)
qed

lemma shouldAnalyzeImage_setAttribute:
  "shouldAnalyzeImage el (setAttribute j name v p) = shouldAnalyzeImage el p"
proof (cases "lookupElement el p")
  case None
  then show ?thesis by (simp add: shouldAnalyzeImage_def lookupElement_setAttribute)
next
  case (Some x)
  obtain a e cs where x: "x = (a, e, cs)" by (cases x)
  with Some show ?thesis by (simp add: shouldAnalyzeImage_def lookupElement_setAttribute)
qed

lemma hidden_setAttribute:
  "(case lookupElement el (setAttribute j name v p) of
      Some (a, e, cs) \<Rightarrow> computedDisplay e = ''none'' \<or> computedVisibility e = ''hidden''
    | None \<Rightarrow> False)
   = (case lookupElement el p of
      Some (a, e, cs) \<Rightarrow> computedDisplay e = ''none'' \<or> computedVisibility e = ''hidden''
    | None \<Rightarrow> False)"
proof (cases "lookupElement el p")
  case None
  then show ?thesis by (simp add: lookupElement_setAttribute)
next
  case (Some x)
  obtain a e cs where x: "x = (a, e, cs)" by (cases x)
  with Some show ?thesis by (simp add: lookupElement_setAttribute)
qed

lemma shouldIgnoreElement_disj:
  "shouldIgnoreElement el p
     = (closest ignoreSelectors el p \<or> hasAttribute el ''data-ai-firewall-processed'' p
        \<or> (case lookupElement el p of
              Some (a, e, cs) \<Rightarrow> computedDisplay e = ''none'' \<or> computedVisibility e = ''hidden''
            | None \<Rightarrow> False))"
  by (simp add: shouldIgnoreElement_def)

lemma shouldIgnoreElement_mark:
  "shouldIgnoreElement el (setAttribute j ''data-ai-firewall-processed'' v p)
     = (shouldIgnoreElement el p \<or> (el = j \<and> lookupElement el p \<noteq> None))"
proof -
  have c: "closest ignoreSelectors el (setAttribute j ''data-ai-firewall-processed'' v p)
         = closest ignoreSelectors el p"
    by (rule closest_setAttribute) (simp_all add: ignoreSelectors_def)
  show ?thesis
    unfolding shouldIgnoreElement_disj c hasAttribute_setAttribute hidden_setAttribute
    by blast
qed

lemma querySelectorAll_setAttribute:
  assumes "plainSelectors sels"
  shows "querySelectorAll sels [] (document (setAttribute j ''data-ai-firewall-processed'' v p))
       = querySelectorAll sels [] (document p)"
proof -
  have "\<forall>sel \<in> set sels. \<forall>s \<in> set sel. s \<noteq> HasAttribute ''data-ai-firewall-processed''"
    using assms by (simp add: plainSelectors_def)
  from querySelectorAll_mark [OF this, of j v "[]" "document p"]
  show ?thesis by (simp add: setAttribute_def updatePage_def)
qed

lemma sameElement_refl: "sameElement p p el"
  by (simp add: sameElement_def)

lemma sameElement_trans:
  assumes pq: "sameElement p q el" and qr: "sameElement q r el"
  shows "sameElement p r el"
proof -
  have 1: "lookupElement el r = None \<longleftrightarrow> lookupElement el p = None"
    using pq qr by (simp add: sameElement_def)
  have 2: "closest ignoreSelectors el r = closest ignoreSelectors el p"
    using pq qr by (simp add: sameElement_def)
  have 3: "hasAttribute el ''data-ai-firewall-processed'' p \<longrightarrow>
           hasAttribute el ''data-ai-firewall-processed'' r"
    using pq qr by (simp add: sameElement_def)
  have 4: "shouldIgnoreElement el p \<longrightarrow> shouldIgnoreElement el r"
    using pq qr by (simp add: sameElement_def)
  have 5: "hasAttribute el ''data-ai-firewall-processed'' r
           \<or> shouldIgnoreElement el r = shouldIgnoreElement el p"
  proof (cases "hasAttribute el ''data-ai-firewall-processed'' r")
    case True
    then show ?thesis by simp
  next
    case False
    with qr have a: "shouldIgnoreElement el r = shouldIgnoreElement el q"
      and b: "\<not> hasAttribute el ''data-ai-firewall-processed'' q"
      by (auto simp: sameElement_def)
    from b pq have "shouldIgnoreElement el q = shouldIgnoreElement el p"
      by (auto simp: sameElement_def)
    with a show ?thesis by simp
  qed
  have 6: "extractText el r = extractText el p"
    using pq qr by (simp add: sameElement_def)
  have 7: "shouldAnalyzeImage el r = shouldAnalyzeImage el p"
    using pq qr by (simp add: sameElement_def)
  show ?thesis
    unfolding sameElement_def by (intro conjI 1 2 3 4 5 6 7)
qed

lemma sameDiscovery_refl: "sameDiscovery p p"
  by (simp add: sameDiscovery_def sameElement_refl)

lemma sameDiscovery_trans:
  assumes pq: "sameDiscovery p q" and qr: "sameDiscovery q r"
  shows "sameDiscovery p r"
proof -
  have h: "hostname r = hostname p" "settings r = settings p"
    using pq qr by (simp_all add: sameDiscovery_def)
  have q: "\<And>sels. plainSelectors sels \<Longrightarrow>
             querySelectorAll sels [] (document r) = querySelectorAll sels [] (document p)"
    using pq qr by (simp add: sameDiscovery_def)
  have e: "sameElement p r el" for el
  proof -
    from pq have 1: "sameElement p q el" by (simp add: sameDiscovery_def)
    from qr have 2: "sameElement q r el" by (simp add: sameDiscovery_def)
    from 1 2 show ?thesis by (rule sameElement_trans)
  qed
  from h q e show ?thesis by (simp add: sameDiscovery_def)
qed

lemma sameDiscovery_frame:
  assumes "document q = document p" "detached q = detached p"
    "hostname q = hostname p" "settings q = settings p"
  shows "sameDiscovery p q"
  using assms(3,4)
  by (simp add: sameDiscovery_def sameElement_def dom_frame [OF assms(1,2)] assms(1))

lemma sameElement_mark: "sameElement p (setAttribute j ''data-ai-firewall-processed'' v p) el"
proof -
  have c: "closest ignoreSelectors el (setAttribute j ''data-ai-firewall-processed'' v p)
         = closest ignoreSelectors el p"
    by (rule closest_setAttribute) (simp_all add: ignoreSelectors_def)
  show ?thesis
    unfolding sameElement_def lookupElement_setAttribute_None c hasAttribute_setAttribute
      shouldIgnoreElement_mark extractText_setAttribute shouldAnalyzeImage_setAttribute
    by blast
qed

lemma sameDiscovery_mark: "sameDiscovery p (setAttribute j ''data-ai-firewall-processed'' v p)"
  by (simp add: sameDiscovery_def sameElement_mark querySelectorAll_setAttribute)

section \<open>Properties of the page scanner\<close>

lemma getThreshold_table:
  "getThreshold TextType (st\<lparr>filteringLevel := Some ''mild''\<rparr>) = Own (8 / 10)"
  "getThreshold TextType (st\<lparr>filteringLevel := Some ''moderate''\<rparr>) = Own (6 / 10)"
  "getThreshold TextType (st\<lparr>filteringLevel := Some ''strict''\<rparr>) = Own (4 / 10)"
  "getThreshold ImageType (st\<lparr>filteringLevel := Some ''mild''\<rparr>) = Own (7 / 10)"
  "getThreshold ImageType (st\<lparr>filteringLevel := Some ''moderate''\<rparr>) = Own (5 / 10)"
  "getThreshold ImageType (st\<lparr>filteringLevel := Some ''strict''\<rparr>) = Own (3 / 10)"
  by (simp_all add: getThreshold_def getProperty_def thresholds_def propertyKey_def)

lemma map_get_None_iff: "map_get k m = None \<longleftrightarrow> k \<notin> fst ` set m"
  by (induction m) auto

lemma thresholds_keys: "fst ` set (thresholds type) = {''mild'', ''moderate'', ''strict''}"
  by (cases type) (auto simp: thresholds_def)

lemma getThreshold_fallback:
  assumes "propertyKey (filteringLevel st) \<notin> {''mild'', ''moderate'', ''strict''}"
    and "propertyKey (filteringLevel st) \<notin> set objectPrototypeProperties"
  shows "getThreshold type st = Own (6 / 10)"
proof -
  from assms(1) have "map_get (propertyKey (filteringLevel st)) (thresholds type) = None"
    by (simp only: map_get_None_iff thresholds_keys not_False_eq_True)
  with assms(2) show ?thesis
    by (simp add: getThreshold_def getProperty_def)
qed


text \<open>
  What \<open>getThreshold\<close> returns on the levels the extension stores, and wherever the
  property read finds nothing: the table value for \<open>mild\<close>, \<open>moderate\<close> and \<open>strict\<close>,
  and 0.6 for every other level that is not the name of a property inherited from
  \<open>Object.prototype\<close>; \<open>disabled\<close> and an undefined level are such levels.
\<close>

lemma getThreshold_table_or_fallback:
  "getThreshold TextType (st\<lparr>filteringLevel := Some ''mild''\<rparr>) = Own (8 / 10)
   \<and> getThreshold TextType (st\<lparr>filteringLevel := Some ''moderate''\<rparr>) = Own (6 / 10)
   \<and> getThreshold TextType (st\<lparr>filteringLevel := Some ''strict''\<rparr>) = Own (4 / 10)
   \<and> getThreshold ImageType (st\<lparr>filteringLevel := Some ''mild''\<rparr>) = Own (7 / 10)
   \<and> getThreshold ImageType (st\<lparr>filteringLevel := Some ''moderate''\<rparr>) = Own (5 / 10)
   \<and> getThreshold ImageType (st\<lparr>filteringLevel := Some ''strict''\<rparr>) = Own (3 / 10)
   \<and> (propertyKey (filteringLevel st) \<notin> {''mild'', ''moderate'', ''strict''}
        \<and> propertyKey (filteringLevel st) \<notin> set objectPrototypeProperties \<longrightarrow>
         getThreshold type st = Own (6 / 10))
   \<and> getThreshold type (st\<lparr>filteringLevel := Some ''disabled''\<rparr>) = Own (6 / 10)
   \<and> getThreshold type (st\<lparr>filteringLevel := None\<rparr>) = Own (6 / 10)"
proof -
  have d: "getThreshold type (st\<lparr>filteringLevel := Some ''disabled''\<rparr>) = Own (6 / 10)"
    by (rule getThreshold_fallback) (simp_all add: propertyKey_def objectPrototypeProperties_def)
  have u: "getThreshold type (st\<lparr>filteringLevel := None\<rparr>) = Own (6 / 10)"
    by (rule getThreshold_fallback) (simp_all add: propertyKey_def objectPrototypeProperties_def)
  from getThreshold_table [of st] getThreshold_fallback [of st type] d u show ?thesis by blast
qed

lemma getThreshold_table_or_fallback_lenient:
  "propertyKey (filteringLevel (moderateSettings\<lparr>filteringLevel := Some ''lenient''\<rparr>))
      \<notin> {''mild'', ''moderate'', ''strict''}
   \<and> propertyKey (filteringLevel (moderateSettings\<lparr>filteringLevel := Some ''lenient''\<rparr>))
      \<notin> set objectPrototypeProperties
   \<and> getThreshold ImageType (moderateSettings\<lparr>filteringLevel := Some ''lenient''\<rparr>) = Own (6 / 10)"
proof -
  let ?st = "moderateSettings\<lparr>filteringLevel := Some ''lenient''\<rparr>"
  have a: "propertyKey (filteringLevel ?st) \<notin> {''mild'', ''moderate'', ''strict''}"
    by (simp add: propertyKey_def)
  have b: "propertyKey (filteringLevel ?st) \<notin> set objectPrototypeProperties"
    by (simp add: propertyKey_def objectPrototypeProperties_def)
  from getThreshold_table_or_fallback [of ?st ImageType] a b
  have c: "getThreshold ImageType ?st = Own (6 / 10)" by blast
  from a b c show ?thesis by blast
qed



subsection \<open>Discovery never queues a node twice\<close>

lemma scanned_refl: "scanned p p"
  by (simp add: scanned_def sameDiscovery_refl)

lemma scanned_trans:
  assumes pq: "scanned p q" and qr: "scanned q r"
  shows "scanned p r"
proof -
  have 1: "sameDiscovery p r"
    using pq qr by (auto simp: scanned_def intro: sameDiscovery_trans)
  have 2: "set (queued p) \<subseteq> set (queued r)"
    using pq qr by (auto simp: scanned_def)
  have 3: "hasAttribute el ''data-ai-firewall-processed'' r \<longrightarrow>
           hasAttribute el ''data-ai-firewall-processed'' p \<or> el \<in> set (queued r)" for el
  proof
    assume "hasAttribute el ''data-ai-firewall-processed'' r"
    with qr have "hasAttribute el ''data-ai-firewall-processed'' q \<or> el \<in> set (queued r)"
      by (simp add: scanned_def)
    then show "hasAttribute el ''data-ai-firewall-processed'' p \<or> el \<in> set (queued r)"
    proof
      assume "hasAttribute el ''data-ai-firewall-processed'' q"
      with pq have "hasAttribute el ''data-ai-firewall-processed'' p \<or> el \<in> set (queued q)"
        by (simp add: scanned_def)
      with qr show ?thesis by (auto simp: scanned_def)
    next
      assume "el \<in> set (queued r)"
      then show ?thesis by simp
    qed
  qed
  from 1 2 3 show ?thesis by (simp add: scanned_def)
qed

lemma processQueue_empty: "scanQueue p = [] \<Longrightarrow> processQueue p = p"
  by (simp add: processQueue_def)

lemma analyzeText_begin_fields:
  "document (analyzeText_begin el content p) = document p"
  "detached (analyzeText_begin el content p) = detached p"
  "hostname (analyzeText_begin el content p) = hostname p"
  "settings (analyzeText_begin el content p) = settings p"
  "scanQueue (analyzeText_begin el content p) = scanQueue p"
  "queued (analyzeText_begin el content p) = queued p"
  by (simp_all add: analyzeText_begin_def processQueue_continue_def split: option.splits)

text \<open>What one push followed by \<open>processQueue\<close> does when the queue was empty.\<close>

lemma queue_one:
  assumes "scanQueue p = []" "itemElement item = el"
  defines "q \<equiv> processQueue (p\<lparr>scanQueue := scanQueue p @ [item], queued := queued p @ [el]\<rparr>)"
  shows "scanQueue q = []"
    and "queued q = queued p @ [el]"
    and "sameDiscovery p q"
    and "hasAttribute el ''data-ai-firewall-processed'' q
           = (hasAttribute el ''data-ai-firewall-processed'' p \<or> lookupElement el p \<noteq> None)"
    and "\<And>x. hasAttribute x ''data-ai-firewall-processed'' q
           \<longrightarrow> hasAttribute x ''data-ai-firewall-processed'' p \<or> x = el"
proof -
  let ?p1 = "p\<lparr>queued := queued p @ [el], scanQueue := []\<rparr>"
  let ?p2 = "setAttribute el ''data-ai-firewall-processed'' ''true'' ?p1"
  have q: "q = (case item of TextItem e content t \<Rightarrow> analyzeText_begin e content ?p2 | ImageItem e t \<Rightarrow> ?p2)"
    using assms(1,2) by (simp add: q_def processQueue_def Let_def split: queueItem.splits)
  have doc: "document q = document ?p2" "detached q = detached ?p2" "hostname q = hostname ?p2"
    "settings q = settings ?p2" "scanQueue q = scanQueue ?p2" "queued q = queued ?p2"
    unfolding q by (simp_all add: analyzeText_begin_fields split: queueItem.splits)
  from doc(5) show "scanQueue q = []" by simp
  from doc(6) show "queued q = queued p @ [el]" by simp
  have f1: "sameDiscovery p ?p1" by (rule sameDiscovery_frame) simp_all
  have f2: "sameDiscovery ?p1 ?p2" by (rule sameDiscovery_mark)
  have f3: "sameDiscovery ?p2 q" using doc(1-4) by (rule sameDiscovery_frame)
  from f1 f2 f3 show "sameDiscovery p q" by (blast intro: sameDiscovery_trans)
  have h: "\<And>x. hasAttribute x ''data-ai-firewall-processed'' q
          = (hasAttribute x ''data-ai-firewall-processed'' ?p1 \<or> (x = el \<and> lookupElement x ?p1 \<noteq> None))"
    using dom_frame(3) [OF doc(1,2)] by (simp add: hasAttribute_setAttribute)
  have g: "\<And>x. hasAttribute x ''data-ai-firewall-processed'' ?p1 = hasAttribute x ''data-ai-firewall-processed'' p"
    "\<And>x. lookupElement x ?p1 = lookupElement x p"
    by (simp_all add: dom_frame [of ?p1 p])
  from h g show "hasAttribute el ''data-ai-firewall-processed'' q
           = (hasAttribute el ''data-ai-firewall-processed'' p \<or> lookupElement el p \<noteq> None)"
    by simp
  from h g show "\<And>x. hasAttribute x ''data-ai-firewall-processed'' q
           \<longrightarrow> hasAttribute x ''data-ai-firewall-processed'' p \<or> x = el"
    by simp
qed

lemma scanTextElement_settled: "settledText p el \<Longrightarrow> scanTextElement now p el = p"
  by (auto simp: settledText_def scanTextElement_def Let_def)

lemma scanImageElement_settled: "settledImage p el \<Longrightarrow> scanImageElement now p el = p"
  by (auto simp: settledImage_def scanImageElement_def)

lemma shouldAnalyzeText_exists:
  "shouldAnalyzeText (extractText el p) \<Longrightarrow> lookupElement el p \<noteq> None"
  by (auto simp: shouldAnalyzeText_def extractText_def split: option.splits)

lemma shouldAnalyzeImage_exists:
  "shouldAnalyzeImage el p \<Longrightarrow> lookupElement el p \<noteq> None"
  by (auto simp: shouldAnalyzeImage_def split: option.splits)

lemma processed_ignored:
  "hasAttribute el ''data-ai-firewall-processed'' p \<Longrightarrow> shouldIgnoreElement el p"
  by (simp add: shouldIgnoreElement_def)

text \<open>A visit to an element that is not settled, with the queue empty.\<close>

lemma scanTextElement_queues:
  fixes now :: int
  assumes "scanQueue p = []" "\<not> settledText p el"
  defines "q \<equiv> scanTextElement now p el"
  shows "scanQueue q = []"
    and "queued q = queued p @ [el]"
    and "sameDiscovery p q"
    and "hasAttribute el ''data-ai-firewall-processed'' q"
    and "\<And>x. hasAttribute x ''data-ai-firewall-processed'' q
           \<longrightarrow> hasAttribute x ''data-ai-firewall-processed'' p \<or> x = el"
proof -
  from assms(2) have e: "shouldAnalyzeText (extractText el p)" and i: "\<not> shouldIgnoreElement el p"
    by (simp_all add: settledText_def)
  have q: "q = processQueue (p\<lparr>scanQueue := scanQueue p @ [TextItem el (extractText el p) now],
                                queued := queued p @ [el]\<rparr>)"
    using e i by (simp add: q_def scanTextElement_def queueTextAnalysis_def Let_def)
  have ie: "itemElement (TextItem el (extractText el p) now) = el" by simp
  note Q = queue_one [OF assms(1) ie, folded q]
  from Q(1) show "scanQueue q = []" .
  from Q(2) show "queued q = queued p @ [el]" .
  from Q(3) show "sameDiscovery p q" .
  from Q(4) shouldAnalyzeText_exists [OF e]
  show "hasAttribute el ''data-ai-firewall-processed'' q" by simp
  from Q(5) show "\<And>x. hasAttribute x ''data-ai-firewall-processed'' q
           \<longrightarrow> hasAttribute x ''data-ai-firewall-processed'' p \<or> x = el" .
qed

lemma scanImageElement_queues:
  fixes now :: int
  assumes "scanQueue p = []" "\<not> settledImage p el"
  defines "q \<equiv> scanImageElement now p el"
  shows "scanQueue q = []"
    and "queued q = queued p @ [el]"
    and "sameDiscovery p q"
    and "hasAttribute el ''data-ai-firewall-processed'' q"
    and "\<And>x. hasAttribute x ''data-ai-firewall-processed'' q
           \<longrightarrow> hasAttribute x ''data-ai-firewall-processed'' p \<or> x = el"
proof -
  from assms(2) have e: "shouldAnalyzeImage el p" and i: "\<not> shouldIgnoreElement el p"
    by (simp_all add: settledImage_def)
  have q: "q = processQueue (p\<lparr>scanQueue := scanQueue p @ [ImageItem el now],
                                queued := queued p @ [el]\<rparr>)"
    using e i by (simp add: q_def scanImageElement_def queueImageAnalysis_def)
  have ie: "itemElement (ImageItem el now) = el" by simp
  note Q = queue_one [OF assms(1) ie, folded q]
  from Q(1) show "scanQueue q = []" .
  from Q(2) show "queued q = queued p @ [el]" .
  from Q(3) show "sameDiscovery p q" .
  from Q(4) shouldAnalyzeImage_exists [OF e]
  show "hasAttribute el ''data-ai-firewall-processed'' q" by simp
  from Q(5) show "\<And>x. hasAttribute x ''data-ai-firewall-processed'' q
           \<longrightarrow> hasAttribute x ''data-ai-firewall-processed'' p \<or> x = el" .
qed

text \<open>One visit, settled or not.\<close>

lemma scanTextElement_step:
  assumes "scanQueue p = []"
  shows "scanQueue (scanTextElement now p el) = []"
    and "scanned p (scanTextElement now p el)"
    and "settledText (scanTextElement now p el) el"
proof -
  show "scanQueue (scanTextElement now p el) = []"
    using assms scanTextElement_settled [of p el now] scanTextElement_queues(1) [OF assms, where el = el and now = now]
    by (cases "settledText p el") simp_all
  show "scanned p (scanTextElement now p el)"
  proof (cases "settledText p el")
    case True
    then show ?thesis by (simp add: scanTextElement_settled scanned_refl)
  next
    case False
    note Q = scanTextElement_queues [OF assms False, where now = now]
    from Q(2,3,5) show ?thesis by (auto simp: scanned_def)
  qed
  show "settledText (scanTextElement now p el) el"
  proof (cases "settledText p el")
    case True
    then show ?thesis by (simp add: scanTextElement_settled)
  next
    case False
    note Q = scanTextElement_queues [OF assms False, where now = now]
    from Q(4) show ?thesis by (simp add: settledText_def processed_ignored)
  qed
qed

lemma scanImageElement_step:
  assumes "scanQueue p = []"
  shows "scanQueue (scanImageElement now p el) = []"
    and "scanned p (scanImageElement now p el)"
    and "settledImage (scanImageElement now p el) el"
proof -
  show "scanQueue (scanImageElement now p el) = []"
    using assms scanImageElement_settled [of p el now] scanImageElement_queues(1) [OF assms, where el = el and now = now]
    by (cases "settledImage p el") simp_all
  show "scanned p (scanImageElement now p el)"
  proof (cases "settledImage p el")
    case True
    then show ?thesis by (simp add: scanImageElement_settled scanned_refl)
  next
    case False
    note Q = scanImageElement_queues [OF assms False, where now = now]
    from Q(2,3,5) show ?thesis by (auto simp: scanned_def)
  qed
  show "settledImage (scanImageElement now p el) el"
  proof (cases "settledImage p el")
    case True
    then show ?thesis by (simp add: scanImageElement_settled)
  next
    case False
    note Q = scanImageElement_queues [OF assms False, where now = now]
    from Q(4) show ?thesis by (simp add: settledImage_def processed_ignored)
  qed
qed

lemma settledText_mono: "scanned p q \<Longrightarrow> settledText p el \<Longrightarrow> settledText q el"
  by (auto simp: scanned_def sameDiscovery_def sameElement_def settledText_def)

lemma settledImage_mono: "scanned p q \<Longrightarrow> settledImage p el \<Longrightarrow> settledImage q el"
  by (auto simp: scanned_def sameDiscovery_def sameElement_def settledImage_def)

lemma queuedOnce_step:
  assumes "queuedOnce p"
  shows "queuedOnce (discover now p v)"
proof -
  from assms have e: "scanQueue p = []" and d: "distinct (queued p)"
    and m: "\<forall>el \<in> set (queued p). hasAttribute el ''data-ai-firewall-processed'' p"
    by (simp_all add: queuedOnce_def)
  show ?thesis
  proof (cases v)
    case (VisitText el)
    show ?thesis
    proof (cases "settledText p el")
      case True
      with VisitText assms show ?thesis by (simp add: scanTextElement_settled)
    next
      case False
      note Q = scanTextElement_queues [OF e False, where now = now]
      from False have "\<not> hasAttribute el ''data-ai-firewall-processed'' p"
        using processed_ignored [of el p] by (auto simp: settledText_def)
      with m have n: "el \<notin> set (queued p)" by blast
      from Q(3) m have "\<forall>x \<in> set (queued p). hasAttribute x ''data-ai-firewall-processed'' (scanTextElement now p el)"
        by (auto simp: sameDiscovery_def sameElement_def)
      with Q(1,2,4) n d VisitText show ?thesis by (simp add: queuedOnce_def)
    qed
  next
    case (VisitImage el)
    show ?thesis
    proof (cases "settledImage p el")
      case True
      with VisitImage assms show ?thesis by (simp add: scanImageElement_settled)
    next
      case False
      note Q = scanImageElement_queues [OF e False, where now = now]
      from False have "\<not> hasAttribute el ''data-ai-firewall-processed'' p"
        using processed_ignored [of el p] by (auto simp: settledImage_def)
      with m have n: "el \<notin> set (queued p)" by blast
      from Q(3) m have "\<forall>x \<in> set (queued p). hasAttribute x ''data-ai-firewall-processed'' (scanImageElement now p el)"
        by (auto simp: sameDiscovery_def sameElement_def)
      with Q(1,2,4) n d VisitImage show ?thesis by (simp add: queuedOnce_def)
    qed
  qed
qed

lemma queuedOnce_visits: "queuedOnce p \<Longrightarrow> queuedOnce (foldl (discover now) p visits)"
  by (induction visits arbitrary: p) (simp_all add: queuedOnce_step)

lemma scanned_query:
  "scanned p q \<Longrightarrow> plainSelectors sels \<Longrightarrow>
   querySelectorAll sels [] (document q) = querySelectorAll sels [] (document p)"
  by (simp add: scanned_def sameDiscovery_def)

lemma scanned_hostname: "scanned p q \<Longrightarrow> hostname q = hostname p"
  by (simp add: scanned_def sameDiscovery_def)

lemma fold_text:
  assumes "scanQueue p = []"
  shows "scanQueue (foldl (scanTextElement now) p els) = []
       \<and> scanned p (foldl (scanTextElement now) p els)
       \<and> (\<forall>el \<in> set els. settledText (foldl (scanTextElement now) p els) el)"
  using assms
proof (induction els arbitrary: p)
  case Nil
  then show ?case by (simp add: scanned_refl)
next
  case (Cons x xs)
  let ?p' = "scanTextElement now p x"
  let ?q = "foldl (scanTextElement now) ?p' xs"
  note S = scanTextElement_step [OF Cons.prems, of now x]
  from Cons.IH [OF S(1)] have q: "scanQueue ?q = []" "scanned ?p' ?q"
    "\<forall>el \<in> set xs. settledText ?q el" by simp_all
  from S(2) q(2) have "scanned p ?q" by (rule scanned_trans)
  moreover from q(2) S(3) have "settledText ?q x" by (rule settledText_mono)
  ultimately show ?case using q by simp
qed

lemma fold_image:
  assumes "scanQueue p = []"
  shows "scanQueue (foldl (scanImageElement now) p els) = []
       \<and> scanned p (foldl (scanImageElement now) p els)
       \<and> (\<forall>el \<in> set els. settledImage (foldl (scanImageElement now) p els) el)"
  using assms
proof (induction els arbitrary: p)
  case Nil
  then show ?case by (simp add: scanned_refl)
next
  case (Cons x xs)
  let ?p' = "scanImageElement now p x"
  let ?q = "foldl (scanImageElement now) ?p' xs"
  note S = scanImageElement_step [OF Cons.prems, of now x]
  from Cons.IH [OF S(1)] have q: "scanQueue ?q = []" "scanned ?p' ?q"
    "\<forall>el \<in> set xs. settledImage ?q el" by simp_all
  from S(2) q(2) have "scanned p ?q" by (rule scanned_trans)
  moreover from q(2) S(3) have "settledImage ?q x" by (rule settledImage_mono)
  ultimately show ?case using q by simp
qed

lemma fold_text_settled:
  "\<forall>el \<in> set els. settledText q el \<Longrightarrow> foldl (scanTextElement now) q els = q"
  by (induction els) (simp_all add: scanTextElement_settled)

lemma fold_image_settled:
  "\<forall>el \<in> set els. settledImage q el \<Longrightarrow> foldl (scanImageElement now) q els = q"
  by (induction els) (simp_all add: scanImageElement_settled)

lemma scanTextContent_scanned:
  assumes "scanQueue p = []"
  shows "scanQueue (scanTextContent now p) = []"
    and "scanned p (scanTextContent now p)"
    and "\<forall>el \<in> set (querySelectorAll textSelectors [] (document p)). settledText (scanTextContent now p) el"
  using fold_text [OF assms, of now "querySelectorAll textSelectors [] (document p)"]
  by (simp_all add: scanTextContent_def)

lemma scanImageContent_scanned:
  assumes "scanQueue p = []"
  shows "scanQueue (scanImageContent now p) = []"
    and "scanned p (scanImageContent now p)"
    and "\<forall>el \<in> set (querySelectorAll imageSelectors [] (document p)). settledImage (scanImageContent now p) el"
  using fold_image [OF assms, of now "querySelectorAll imageSelectors [] (document p)"]
  by (simp_all add: scanImageContent_def)

lemma fold_google:
  assumes "scanQueue p = []" "set sels \<subseteq> set googleSelectors"
  shows "scanQueue (foldl (\<lambda>p selector. foldl (scanTextElement now) p
                      (querySelectorAll [selector] [] (document p))) p sels) = []
       \<and> scanned p (foldl (\<lambda>p selector. foldl (scanTextElement now) p
                      (querySelectorAll [selector] [] (document p))) p sels)
       \<and> (\<forall>selector \<in> set sels. \<forall>el \<in> set (querySelectorAll [selector] [] (document p)).
             settledText (foldl (\<lambda>p selector. foldl (scanTextElement now) p
                      (querySelectorAll [selector] [] (document p))) p sels) el)"
  using assms
proof (induction sels arbitrary: p)
  case Nil
  then show ?case by (simp add: scanned_refl)
next
  case (Cons s ss)
  let ?step = "\<lambda>p selector. foldl (scanTextElement now) p (querySelectorAll [selector] [] (document p))"
  let ?p' = "?step p s"
  let ?q = "foldl ?step ?p' ss"
  from Cons.prems have pl: "\<And>x. x \<in> set (s # ss) \<Longrightarrow> plainSelectors [x]"
    by (auto intro: plain_googleSelector)
  from fold_text [OF Cons.prems(1), of now "querySelectorAll [s] [] (document p)"]
  have S: "scanQueue ?p' = []" "scanned p ?p'"
    "\<forall>el \<in> set (querySelectorAll [s] [] (document p)). settledText ?p' el" by simp_all
  from Cons.prems have "set ss \<subseteq> set googleSelectors" by simp
  from Cons.IH [OF S(1) this] have q: "scanQueue ?q = []" "scanned ?p' ?q"
    "\<forall>selector \<in> set ss. \<forall>el \<in> set (querySelectorAll [selector] [] (document ?p')). settledText ?q el"
    by simp_all
  from S(2) q(2) have pq: "scanned p ?q" by (rule scanned_trans)
  have a: "\<forall>el \<in> set (querySelectorAll [s] [] (document p)). settledText ?q el"
    using S(3) q(2) by (blast intro: settledText_mono)
  have b: "\<forall>selector \<in> set ss. \<forall>el \<in> set (querySelectorAll [selector] [] (document p)). settledText ?q el"
  proof
    fix selector assume m: "selector \<in> set ss"
    then have "plainSelectors [selector]" using pl by simp
    with S(2) have "querySelectorAll [selector] [] (document ?p') = querySelectorAll [selector] [] (document p)"
      by (rule scanned_query)
    with q(3) m show "\<forall>el \<in> set (querySelectorAll [selector] [] (document p)). settledText ?q el"
      by auto
  qed
  from q(1) pq a b show ?case by simp
qed

lemma fold_google_settled:
  "\<forall>selector \<in> set sels. \<forall>el \<in> set (querySelectorAll [selector] [] (document q)). settledText q el \<Longrightarrow>
   foldl (\<lambda>p selector. foldl (scanTextElement now) p (querySelectorAll [selector] [] (document p))) q sels = q"
  by (induction sels) (simp_all add: fold_text_settled)

lemma scanGoogleSearchResults_scanned:
  assumes "scanQueue p = []"
  shows "scanQueue (scanGoogleSearchResults now p) = []"
    and "scanned p (scanGoogleSearchResults now p)"
    and "\<forall>selector \<in> set googleSelectors. \<forall>el \<in> set (querySelectorAll [selector] [] (document p)).
           settledText (scanGoogleSearchResults now p) el"
  using fold_google [OF assms, of googleSelectors now]
  by (simp_all add: scanGoogleSearchResults_def Let_def)

lemma queuedOnce_fold_text:
  "queuedOnce p \<Longrightarrow> queuedOnce (foldl (scanTextElement now) p els)"
proof (induction els arbitrary: p)
  case Nil
  then show ?case by simp
next
  case (Cons x xs)
  from queuedOnce_step [OF Cons.prems, of now "VisitText x"]
  have "queuedOnce (scanTextElement now p x)" by simp
  from Cons.IH [OF this] show ?case by simp
qed

lemma queuedOnce_fold_image:
  "queuedOnce p \<Longrightarrow> queuedOnce (foldl (scanImageElement now) p els)"
proof (induction els arbitrary: p)
  case Nil
  then show ?case by simp
next
  case (Cons x xs)
  from queuedOnce_step [OF Cons.prems, of now "VisitImage x"]
  have "queuedOnce (scanImageElement now p x)" by simp
  from Cons.IH [OF this] show ?case by simp
qed

lemma queuedOnce_fold_google:
  "queuedOnce p \<Longrightarrow>
   queuedOnce (foldl (\<lambda>p selector. foldl (scanTextElement now) p
                        (querySelectorAll [selector] [] (document p))) p sels)"
  by (induction sels arbitrary: p) (simp_all add: queuedOnce_fold_text)

lemma queuedOnce_scanExistingContent:
  "queuedOnce p \<Longrightarrow> queuedOnce (scanExistingContent now p)"
  by (simp add: scanExistingContent_def scanTextContent_def scanImageContent_def
      scanGoogleSearchResults_def Let_def queuedOnce_fold_text queuedOnce_fold_image
      queuedOnce_fold_google)

lemma scanExistingContent_scanned:
  assumes "scanQueue p = []"
  shows "scanQueue (scanExistingContent now p) = []"
    and "scanned p (scanExistingContent now p)"
    and "\<forall>el \<in> set (querySelectorAll textSelectors [] (document p)).
           settledText (scanExistingContent now p) el"
    and "includes (hostname p) (js ''google.'') \<Longrightarrow>
         \<forall>selector \<in> set googleSelectors. \<forall>el \<in> set (querySelectorAll [selector] [] (document p)).
           settledText (scanExistingContent now p) el"
    and "\<forall>el \<in> set (querySelectorAll imageSelectors [] (document p)).
           settledImage (scanExistingContent now p) el"
proof -
  let ?p1 = "scanTextContent now p"
  let ?p2 = "if includes (hostname ?p1) (js ''google.'') then scanGoogleSearchResults now ?p1 else ?p1"
  let ?r = "scanImageContent now ?p2"
  have r: "scanExistingContent now p = ?r" by (simp add: scanExistingContent_def Let_def)
  note T = scanTextContent_scanned [OF assms, of now]
  have h1: "hostname ?p1 = hostname p" using T(2) by (rule scanned_hostname)
  have P2: "scanQueue ?p2 = []" "scanned ?p1 ?p2"
    using scanGoogleSearchResults_scanned(1,2) [OF T(1), of now] T(1)
    by (simp_all add: scanned_refl)
  note I = scanImageContent_scanned [OF P2(1), of now]
  from T(2) P2(2) have p2: "scanned p ?p2" by (rule scanned_trans)
  from P2(2) I(2) have p1r: "scanned ?p1 ?r" by (rule scanned_trans)
  from p2 I(2) have pr: "scanned p ?r" by (rule scanned_trans)
  from I(1) show "scanQueue (scanExistingContent now p) = []" by (simp only: r)
  from pr show "scanned p (scanExistingContent now p)" by (simp only: r)
  from T(3) p1r show "\<forall>el \<in> set (querySelectorAll textSelectors [] (document p)).
           settledText (scanExistingContent now p) el"
    unfolding r by (blast intro: settledText_mono)
  show "\<forall>selector \<in> set googleSelectors. \<forall>el \<in> set (querySelectorAll [selector] [] (document p)).
           settledText (scanExistingContent now p) el"
    if g: "includes (hostname p) (js ''google.'')"
  proof (intro ballI)
    fix selector el
    assume s: "selector \<in> set googleSelectors"
      and e: "el \<in> set (querySelectorAll [selector] [] (document p))"
    from g h1 have p2: "?p2 = scanGoogleSearchResults now ?p1" by simp
    from s have "plainSelectors [selector]" by (rule plain_googleSelector)
    with T(2) have "querySelectorAll [selector] [] (document ?p1) = querySelectorAll [selector] [] (document p)"
      by (rule scanned_query)
    with scanGoogleSearchResults_scanned(3) [OF T(1), of now] s e
    have "settledText (scanGoogleSearchResults now ?p1) el" by auto
    with p2 have "settledText ?p2 el" by simp
    with I(2) have "settledText ?r el" by (rule settledText_mono)
    then show "settledText (scanExistingContent now p) el" by (simp only: r)
  qed
  have "querySelectorAll imageSelectors [] (document ?p2) = querySelectorAll imageSelectors [] (document p)"
    using p2 plain_imageSelectors by (rule scanned_query)
  with I(3) show "\<forall>el \<in> set (querySelectorAll imageSelectors [] (document p)).
           settledImage (scanExistingContent now p) el"
    by (simp only: r)
qed

lemma scanExistingContent_twice:
  assumes "scanQueue p = []"
  shows "scanExistingContent now' (scanExistingContent now p) = scanExistingContent now p"
proof -
  let ?r = "scanExistingContent now p"
  note S = scanExistingContent_scanned [OF assms, of now]
  have qt: "querySelectorAll textSelectors [] (document ?r) = querySelectorAll textSelectors [] (document p)"
    using S(2) plain_textSelectors by (rule scanned_query)
  have qi: "querySelectorAll imageSelectors [] (document ?r) = querySelectorAll imageSelectors [] (document p)"
    using S(2) plain_imageSelectors by (rule scanned_query)
  have h: "hostname ?r = hostname p" using S(2) by (rule scanned_hostname)
  have t: "scanTextContent now' ?r = ?r"
    using S(3) by (simp add: scanTextContent_def qt fold_text_settled)
  have g: "includes (hostname p) (js ''google.'') \<Longrightarrow> scanGoogleSearchResults now' ?r = ?r"
  proof -
    assume gg: "includes (hostname p) (js ''google.'')"
    have "\<forall>selector \<in> set googleSelectors. \<forall>el \<in> set (querySelectorAll [selector] [] (document ?r)).
            settledText ?r el"
    proof (intro ballI)
      fix selector el
      assume s: "selector \<in> set googleSelectors"
        and e: "el \<in> set (querySelectorAll [selector] [] (document ?r))"
      from s have "plainSelectors [selector]" by (rule plain_googleSelector)
      with S(2) have "querySelectorAll [selector] [] (document ?r) = querySelectorAll [selector] [] (document p)"
        by (rule scanned_query)
      with S(4) [OF gg] s e show "settledText ?r el" by auto
    qed
    then show ?thesis
      unfolding scanGoogleSearchResults_def Let_def by (rule fold_google_settled)
  qed
  have i: "scanImageContent now' ?r = ?r"
    using S(5) by (simp add: scanImageContent_def qi fold_image_settled)
  show ?thesis
    unfolding scanExistingContent_def [of now' ?r] Let_def t h
    using g i by simp
qed

lemma scanExistingContent_queues_text:
  assumes e: "scanQueue p = []"
    and m: "el \<in> set (querySelectorAll textSelectors [] (document p))"
    and u: "\<not> settledText p el"
  shows "el \<in> set (queued (scanExistingContent now p))"
proof -
  let ?r = "scanExistingContent now p"
  note S = scanExistingContent_scanned [OF e, of now]
  from S(3) m have sr: "settledText ?r el" by blast
  from S(2) have se: "sameElement p ?r el" by (simp add: scanned_def sameDiscovery_def)
  from u have ni: "\<not> shouldIgnoreElement el p" and a: "shouldAnalyzeText (extractText el p)"
    by (simp_all add: settledText_def)
  from se a have "shouldAnalyzeText (extractText el ?r)" by (simp add: sameElement_def)
  with sr have ir: "shouldIgnoreElement el ?r" by (simp add: settledText_def)
  with se ni have "hasAttribute el ''data-ai-firewall-processed'' ?r"
    by (auto simp: sameElement_def)
  with S(2) have "hasAttribute el ''data-ai-firewall-processed'' p \<or> el \<in> set (queued ?r)"
    by (simp add: scanned_def)
  with ni processed_ignored [of el p] show ?thesis by blast
qed

lemma scanExistingContent_queues_image:
  assumes e: "scanQueue p = []"
    and m: "el \<in> set (querySelectorAll imageSelectors [] (document p))"
    and u: "\<not> settledImage p el"
  shows "el \<in> set (queued (scanExistingContent now p))"
proof -
  let ?r = "scanExistingContent now p"
  note S = scanExistingContent_scanned [OF e, of now]
  from S(5) m have sr: "settledImage ?r el" by blast
  from S(2) have se: "sameElement p ?r el" by (simp add: scanned_def sameDiscovery_def)
  from u have ni: "\<not> shouldIgnoreElement el p" and a: "shouldAnalyzeImage el p"
    by (simp_all add: settledImage_def)
  from se a have "shouldAnalyzeImage el ?r" by (simp add: sameElement_def)
  with sr have ir: "shouldIgnoreElement el ?r" by (simp add: settledImage_def)
  with se ni have "hasAttribute el ''data-ai-firewall-processed'' ?r"
    by (auto simp: sameElement_def)
  with S(2) have "hasAttribute el ''data-ai-firewall-processed'' p \<or> el \<in> set (queued ?r)"
    by (simp add: scanned_def)
  with ni processed_ignored [of el p] show ?thesis by blast
qed

lemma sample_entries:
  "subtrees [] (document samplePage) =
     [([], blankElement 0 ''#document'',
         [Element (blankElement 1 ''html'')
             [Element (blankElement 2 ''body'')
                [Element (blankElement 3 ''p'') [TextNode (js ''hello world'')],
                 Element ((blankElement 4 ''img'')
                            \<lparr>src := Some (js ''x.png''), width := Some 100, height := Some 100\<rparr>) []]]]),
      ([blankElement 0 ''#document''], blankElement 1 ''html'',
         [Element (blankElement 2 ''body'')
                [Element (blankElement 3 ''p'') [TextNode (js ''hello world'')],
                 Element ((blankElement 4 ''img'')
                            \<lparr>src := Some (js ''x.png''), width := Some 100, height := Some 100\<rparr>) []]]),
      ([blankElement 1 ''html'', blankElement 0 ''#document''], blankElement 2 ''body'',
                [Element (blankElement 3 ''p'') [TextNode (js ''hello world'')],
                 Element ((blankElement 4 ''img'')
                            \<lparr>src := Some (js ''x.png''), width := Some 100, height := Some 100\<rparr>) []]),
      ([blankElement 2 ''body'', blankElement 1 ''html'', blankElement 0 ''#document''],
         blankElement 3 ''p'', [TextNode (js ''hello world'')]),
      ([blankElement 2 ''body'', blankElement 1 ''html'', blankElement 0 ''#document''],
         (blankElement 4 ''img'')\<lparr>src := Some (js ''x.png''), width := Some 100, height := Some 100\<rparr>, [])]"
  by (simp add: samplePage_def)

lemma sample_lookup3:
  "lookupElement 3 samplePage =
     Some ([blankElement 2 ''body'', blankElement 1 ''html'', blankElement 0 ''#document''],
           blankElement 3 ''p'', [TextNode (js ''hello world'')])"
  unfolding lookupElement_def
  by (simp add: sample_entries) (simp add: samplePage_def blankElement_def)


lemma sample_text_query: "querySelectorAll textSelectors [] (document samplePage) = [3]"
  unfolding querySelectorAll_def sample_entries
  by (simp add: matchesAny_def matches_def matchesSimple_def textSelectors_def blankElement_def)

lemma sample_image_query: "querySelectorAll imageSelectors [] (document samplePage) = [4]"
  unfolding querySelectorAll_def sample_entries
  by (simp add: matchesAny_def matches_def matchesSimple_def imageSelectors_def blankElement_def)

lemma sample_not_ignored3: "\<not> shouldIgnoreElement 3 samplePage"
  unfolding shouldIgnoreElement_def closest_def hasAttribute_def sample_lookup3
  by (simp add: matchesAny_def matches_def matchesSimple_def ignoreSelectors_def blankElement_def
      computedDisplay_def)

lemma js_hello: "js ''hello world'' = [104, 101, 108, 108, 111, 32, 119, 111, 114, 108, 100]"
  by (simp add: js_def)

lemma sample_text3: "extractText 3 samplePage = js ''hello world''"
  unfolding extractText_def sample_lookup3
  by (simp add: js_hello trim_def isWhiteSpace_def)

lemma sample_unsettled3: "\<not> settledText samplePage 3"
  unfolding settledText_def sample_text3
  using sample_not_ignored3
  by (simp add: js_hello shouldAnalyzeText_def isAsciiLetter_def)

lemma sample_queuedOnce: "queuedOnce samplePage"
  by (simp add: queuedOnce_def samplePage_def)

text \<open>
  C3.  With the queue empty between tasks, as the scanner leaves it, no element is ever
  queued twice, whatever sequence of discovery visits reaches it: an element that is
  queued is marked processed in the same step, and a marked element is ignored before
  anything else is looked at.  Scanning the page a second time changes nothing at all;
  after the first scan every element of the page that was eligible and not ignored is
  in the record of queued elements, and that record has no duplicates.
\<close>

theorem discovery_queues_each_node_once:
  assumes "queuedOnce p"
  shows "queuedOnce (foldl (discover now) p visits)
       \<and> queuedOnce (scanExistingContent now p)
       \<and> scanExistingContent now' (scanExistingContent now p) = scanExistingContent now p
       \<and> (\<forall>el \<in> set (querySelectorAll textSelectors [] (document p)).
             \<not> settledText p el \<longrightarrow> el \<in> set (queued (scanExistingContent now p)))
       \<and> (\<forall>el \<in> set (querySelectorAll imageSelectors [] (document p)).
             \<not> settledImage p el \<longrightarrow> el \<in> set (queued (scanExistingContent now p)))
       \<and> (\<not> settledText p el \<longrightarrow>
             queued (scanTextElement now p el) = queued p @ [el]
             \<and> hasAttribute el ''data-ai-firewall-processed'' (scanTextElement now p el)
             \<and> shouldIgnoreElement el (scanTextElement now p el))
       \<and> (\<not> settledImage p el \<longrightarrow>
             queued (scanImageElement now p el) = queued p @ [el]
             \<and> hasAttribute el ''data-ai-firewall-processed'' (scanImageElement now p el)
             \<and> shouldIgnoreElement el (scanImageElement now p el))
       \<and> (shouldIgnoreElement el p \<longrightarrow>
             scanTextElement now p el = p \<and> scanImageElement now p el = p)"
proof -
  from assms have e: "scanQueue p = []" by (simp add: queuedOnce_def)
  have 1: "queuedOnce (foldl (discover now) p visits)"
    using assms by (rule queuedOnce_visits)
  have 2: "queuedOnce (scanExistingContent now p)"
    using assms by (rule queuedOnce_scanExistingContent)
  have 3: "scanExistingContent now' (scanExistingContent now p) = scanExistingContent now p"
    using e by (rule scanExistingContent_twice)
  have 4: "\<forall>el \<in> set (querySelectorAll textSelectors [] (document p)).
             \<not> settledText p el \<longrightarrow> el \<in> set (queued (scanExistingContent now p))"
    using scanExistingContent_queues_text [OF e] by blast
  have 5: "\<forall>el \<in> set (querySelectorAll imageSelectors [] (document p)).
             \<not> settledImage p el \<longrightarrow> el \<in> set (queued (scanExistingContent now p))"
    using scanExistingContent_queues_image [OF e] by blast
  have 6: "\<not> settledText p el \<longrightarrow>
             queued (scanTextElement now p el) = queued p @ [el]
             \<and> hasAttribute el ''data-ai-firewall-processed'' (scanTextElement now p el)
             \<and> shouldIgnoreElement el (scanTextElement now p el)"
    using scanTextElement_queues(2,4) [OF e, where el = el and now = now]
      processed_ignored [of el "scanTextElement now p el"] by blast
  have 7: "\<not> settledImage p el \<longrightarrow>
             queued (scanImageElement now p el) = queued p @ [el]
             \<and> hasAttribute el ''data-ai-firewall-processed'' (scanImageElement now p el)
             \<and> shouldIgnoreElement el (scanImageElement now p el)"
    using scanImageElement_queues(2,4) [OF e, where el = el and now = now]
      processed_ignored [of el "scanImageElement now p el"] by blast
  have 8: "shouldIgnoreElement el p \<longrightarrow>
             scanTextElement now p el = p \<and> scanImageElement now p el = p"
    by (simp add: scanTextElement_def scanImageElement_def)
  from 1 2 3 4 5 6 7 8 show ?thesis by blast
qed

theorem discovery_queues_each_node_once_witness:
  "queuedOnce samplePage
   \<and> 3 \<in> set (querySelectorAll textSelectors [] (document samplePage))
   \<and> \<not> settledText samplePage 3
   \<and> 3 \<in> set (queued (scanExistingContent 0 samplePage))
   \<and> distinct (queued (scanExistingContent 0 samplePage))
   \<and> scanExistingContent 5000 (scanExistingContent 0 samplePage) = scanExistingContent 0 samplePage
   \<and> queued (scanTextElement 0 samplePage 3) = [3]
   \<and> shouldIgnoreElement 3 (scanTextElement 0 samplePage 3)
   \<and> scanTextElement 1 (scanTextElement 0 samplePage 3) 3 = scanTextElement 0 samplePage 3"
proof -
  note T = discovery_queues_each_node_once [OF sample_queuedOnce, of 0 "[]" 5000 3]
  note U = discovery_queues_each_node_once
    [OF queuedOnce_step [OF sample_queuedOnce, of 0 "VisitText 3"], of 1 "[]" 1 3]
  have m: "3 \<in> set (querySelectorAll textSelectors [] (document samplePage))"
    by (simp add: sample_text_query)
  from T have a: "queuedOnce (scanExistingContent 0 samplePage)" by blast
  then have d: "distinct (queued (scanExistingContent 0 samplePage))" by (simp add: queuedOnce_def)
  from T have "\<forall>el \<in> set (querySelectorAll textSelectors [] (document samplePage)).
             \<not> settledText samplePage el \<longrightarrow> el \<in> set (queued (scanExistingContent 0 samplePage))"
    by blast
  with m sample_unsettled3 have i: "3 \<in> set (queued (scanExistingContent 0 samplePage))" by blast
  from T have t: "scanExistingContent 5000 (scanExistingContent 0 samplePage) = scanExistingContent 0 samplePage"
    by blast
  from T sample_unsettled3 have q: "queued (scanTextElement 0 samplePage 3) = queued samplePage @ [3]"
    and s: "shouldIgnoreElement 3 (scanTextElement 0 samplePage 3)" by blast+
  from q have q': "queued (scanTextElement 0 samplePage 3) = [3]" by (simp add: samplePage_def)
  from U s have r: "scanTextElement 1 (scanTextElement 0 samplePage 3) 3 = scanTextElement 0 samplePage 3"
    by simp
  from sample_queuedOnce m sample_unsettled3 i d t q' s r show ?thesis by blast
qed


subsection \<open>The trusted-site guard\<close>

lemma startsWith_iff: "startsWith s sub \<longleftrightarrow> (\<exists>post. s = sub @ post)"
  by (induction s sub rule: startsWith.induct) auto

lemma includes_iff: "includes s sub \<longleftrightarrow> (\<exists>pre post. s = pre @ sub @ post)"
proof (induction s)
  case Nil
  then show ?case by simp
next
  case (Cons x xs)
  show ?case
  proof
    assume "includes (x # xs) sub"
    then consider "startsWith (x # xs) sub" | "includes xs sub" by auto
    then show "\<exists>pre post. x # xs = pre @ sub @ post"
    proof cases
      case 1
      then obtain post where "x # xs = sub @ post" by (auto simp: startsWith_iff)
      then have "x # xs = [] @ sub @ post" by simp
      then show ?thesis by blast
    next
      case 2
      with Cons.IH obtain pre post where "xs = pre @ sub @ post" by blast
      then have "x # xs = (x # pre) @ sub @ post" by simp
      then show ?thesis by blast
    qed
  next
    assume "\<exists>pre post. x # xs = pre @ sub @ post"
    then obtain pre post where e: "x # xs = pre @ sub @ post" by blast
    show "includes (x # xs) sub"
    proof (cases pre)
      case Nil
      with e have "startsWith (x # xs) sub" by (auto simp: startsWith_iff)
      then show ?thesis by simp
    next
      case (Cons y ys)
      with e have "xs = ys @ sub @ post" by simp
      with Cons.IH have "includes xs sub" by blast
      then show ?thesis by simp
    qed
  qed
qed

lemma processQueue_rescanIntervals [simp]: "rescanIntervals (processQueue p) = rescanIntervals p"
  by (simp add: processQueue_def analyzeText_begin_def processQueue_continue_def Let_def
      split: list.splits queueItem.splits option.splits)

lemma scanTextElement_rescanIntervals [simp]:
  "rescanIntervals (scanTextElement now p el) = rescanIntervals p"
  by (simp add: scanTextElement_def queueTextAnalysis_def Let_def)

lemma scanImageElement_rescanIntervals [simp]:
  "rescanIntervals (scanImageElement now p el) = rescanIntervals p"
  by (simp add: scanImageElement_def queueImageAnalysis_def)

lemma fold_text_rescanIntervals [simp]:
  "rescanIntervals (foldl (scanTextElement now) p els) = rescanIntervals p"
  by (induction els arbitrary: p) simp_all

lemma fold_image_rescanIntervals [simp]:
  "rescanIntervals (foldl (scanImageElement now) p els) = rescanIntervals p"
  by (induction els arbitrary: p) simp_all

lemma fold_google_rescanIntervals [simp]:
  "rescanIntervals (foldl (\<lambda>p selector. foldl (scanTextElement now) p
                        (querySelectorAll [selector] [] (document p))) p sels) = rescanIntervals p"
  by (induction sels arbitrary: p) simp_all

lemma scanExistingContent_rescanIntervals:
  "rescanIntervals (scanExistingContent now p) = rescanIntervals p"
  by (simp add: scanExistingContent_def scanTextContent_def scanImageContent_def
      scanGoogleSearchResults_def Let_def)

lemma isAllowlisted_isScanning [simp]: "isAllowlisted (p\<lparr>isScanning := b\<rparr>) = isAllowlisted p"
  by (simp add: isAllowlisted_def Let_def)

lemma startScanning_without_allowlist:
  assumes "\<not> isScanning p" and "isAllowlisted p = Inl err"
  shows "startScanning now p = (p\<lparr>isScanning := True\<rparr>, Some err)"
    and "periodicRescan now p = Inl err"
  using assms by (simp_all add: startScanning_def periodicRescan_def)

lemma isAllowlisted_throws:
  "isAllowlisted p = Inl TypeError
     \<longleftrightarrow> (settings p = None \<or> (\<exists>st. settings p = Some st \<and> allowlist st = None))"
  by (auto simp: isAllowlisted_def Let_def split: option.splits)

text \<open>
  C9, as the code has it.  Let the scanner not yet be scanning and its settings be loaded
  and hold an allowlist.  \<open>isAllowlisted\<close> holds exactly when some allowlist entry is a
  substring of the host name or the host name is a substring of some allowlist entry.
  \<open>startScanning\<close> then only sets \<open>isScanning\<close> (nothing is discovered or queued and no
  interval is registered) and the periodic rescan does nothing; otherwise the page is
  scanned and the interval registered, and the periodic rescan scans.
\<close>

theorem startScanning_skips_iff_allowlisted_either_way:
  assumes "\<not> isScanning p" and "settings p = Some st" and "allowlist st = Some entries"
  shows "isAllowlisted p =
           Inr (\<exists>domain \<in> set entries.
                  (\<exists>pre post. hostname p = pre @ domain @ post)
                  \<or> (\<exists>pre post. domain = pre @ hostname p @ post))
       \<and> (isAllowlisted p = Inr True \<longrightarrow>
             startScanning now p = (p\<lparr>isScanning := True\<rparr>, None)
             \<and> periodicRescan now p = Inr p)
       \<and> (isAllowlisted p = Inr False \<longrightarrow>
             startScanning now p
               = (continuousScanning (scanExistingContent now (p\<lparr>isScanning := True\<rparr>)), None)
             \<and> periodicRescan now p = Inr (scanExistingContent now p))
       \<and> (rescanIntervals (fst (startScanning now p)) = rescanIntervals p
            \<longleftrightarrow> isAllowlisted p = Inr True)"
proof -
  have 1: "isAllowlisted p =
           Inr (\<exists>domain \<in> set entries.
                  (\<exists>pre post. hostname p = pre @ domain @ post)
                  \<or> (\<exists>pre post. domain = pre @ hostname p @ post))"
    using assms(2,3) by (simp add: isAllowlisted_def includes_iff Let_def)
  have 2: "isAllowlisted p = Inr True \<longrightarrow>
             startScanning now p = (p\<lparr>isScanning := True\<rparr>, None)
             \<and> periodicRescan now p = Inr p"
    using assms(1) by (simp add: startScanning_def periodicRescan_def)
  have 3: "isAllowlisted p = Inr False \<longrightarrow>
             startScanning now p
               = (continuousScanning (scanExistingContent now (p\<lparr>isScanning := True\<rparr>)), None)
             \<and> periodicRescan now p = Inr (scanExistingContent now p)"
    using assms(1) by (simp add: startScanning_def periodicRescan_def)
  obtain b where b: "isAllowlisted p = Inr b" using 1 by blast
  have 4: "rescanIntervals (fst (startScanning now p)) = rescanIntervals p
            \<longleftrightarrow> isAllowlisted p = Inr True"
    using assms(1) b
    by (cases b) (simp_all add: startScanning_def continuousScanning_def
        scanExistingContent_rescanIntervals)
  from 1 2 3 4 show ?thesis by blast
qed

lemma allowlisted_fields:
  "hostname allowlistedPage = js ''a.com''"
  "settings allowlistedPage = Some (moderateSettings\<lparr>allowlist := Some [js ''www.a.com'']\<rparr>)"
  "\<not> isScanning allowlistedPage"
  "document allowlistedPage = document samplePage"
  "detached allowlistedPage = detached samplePage"
  "queued allowlistedPage = []"
  "rescanIntervals allowlistedPage = 0"
  by (simp_all add: allowlistedPage_def samplePage_def)

lemma sample_fields:
  "hostname samplePage = js ''a.com''"
  "settings samplePage = Some moderateSettings"
  "\<not> isScanning samplePage"
  "rescanIntervals samplePage = 0"
  "allowlist moderateSettings = Some []"
  by (simp_all add: samplePage_def moderateSettings_def)

lemma js_hosts:
  "js ''a.com'' = [97, 46, 99, 111, 109]"
  "js ''www.a.com'' = [119, 119, 119, 46, 97, 46, 99, 111, 109]"
  by (simp_all add: js_def)

lemma sample_isAllowlisted: "isAllowlisted allowlistedPage = Inr True"
  by (simp add: isAllowlisted_def allowlisted_fields js_hosts)

lemma sample_not_allowlisted: "isAllowlisted samplePage = Inr False"
  by (simp add: isAllowlisted_def sample_fields)

lemma sample_not_substring: "\<not> includes (js ''a.com'') (js ''www.a.com'')"
  by (simp add: js_hosts)

theorem startScanning_skips_iff_allowlisted_either_way_witness:
  "\<not> isScanning allowlistedPage
   \<and> settings allowlistedPage = Some (moderateSettings\<lparr>allowlist := Some [js ''www.a.com'']\<rparr>)
   \<and> allowlist (moderateSettings\<lparr>allowlist := Some [js ''www.a.com'']\<rparr>) = Some [js ''www.a.com'']
   \<and> isAllowlisted allowlistedPage = Inr True
   \<and> startScanning 0 allowlistedPage = (allowlistedPage\<lparr>isScanning := True\<rparr>, None)
   \<and> periodicRescan 5000 allowlistedPage = Inr allowlistedPage
   \<and> rescanIntervals (fst (startScanning 0 allowlistedPage)) = rescanIntervals allowlistedPage
   \<and> \<not> isScanning samplePage
   \<and> settings samplePage = Some moderateSettings
   \<and> allowlist moderateSettings = Some []
   \<and> isAllowlisted samplePage = Inr False
   \<and> startScanning 0 samplePage
       = (continuousScanning (scanExistingContent 0 (samplePage\<lparr>isScanning := True\<rparr>)), None)
   \<and> periodicRescan 5000 samplePage = Inr (scanExistingContent 5000 samplePage)
   \<and> rescanIntervals (fst (startScanning 0 samplePage)) \<noteq> rescanIntervals samplePage"
proof -
  have al: "allowlist (moderateSettings\<lparr>allowlist := Some [js ''www.a.com'']\<rparr>) = Some [js ''www.a.com'']"
    by simp
  note T = startScanning_skips_iff_allowlisted_either_way
    [OF allowlisted_fields(3) allowlisted_fields(2) al, of 0]
  note U = startScanning_skips_iff_allowlisted_either_way
    [OF allowlisted_fields(3) allowlisted_fields(2) al, of 5000]
  note V = startScanning_skips_iff_allowlisted_either_way
    [OF sample_fields(3) sample_fields(2) sample_fields(5), of 0]
  note W = startScanning_skips_iff_allowlisted_either_way
    [OF sample_fields(3) sample_fields(2) sample_fields(5), of 5000]
  from T sample_isAllowlisted
  have a: "startScanning 0 allowlistedPage = (allowlistedPage\<lparr>isScanning := True\<rparr>, None)" by blast
  from U sample_isAllowlisted
  have b: "periodicRescan 5000 allowlistedPage = Inr allowlistedPage" by blast
  from T sample_isAllowlisted
  have c: "rescanIntervals (fst (startScanning 0 allowlistedPage)) = rescanIntervals allowlistedPage"
    by blast
  from V sample_not_allowlisted
  have d: "startScanning 0 samplePage
       = (continuousScanning (scanExistingContent 0 (samplePage\<lparr>isScanning := True\<rparr>)), None)"
    by blast
  from W sample_not_allowlisted
  have e: "periodicRescan 5000 samplePage = Inr (scanExistingContent 5000 samplePage)" by blast
  from V have "rescanIntervals (fst (startScanning 0 samplePage)) = rescanIntervals samplePage
            \<longleftrightarrow> isAllowlisted samplePage = Inr True"
    by (elim conjE)
  with sample_not_allowlisted
  have f: "rescanIntervals (fst (startScanning 0 samplePage)) \<noteq> rescanIntervals samplePage"
    by simp
  from allowlisted_fields(3) allowlisted_fields(2) al sample_isAllowlisted a b c
    sample_fields(3) sample_fields(2) sample_fields(5) sample_not_allowlisted d e f
  show ?thesis by blast
qed

text \<open>
  C9 as stated fails: on host \<open>a.com\<close> with the allowlist entry \<open>www.a.com\<close> no entry
  is a substring of the host name, the page holds an eligible paragraph, and
  \<open>startScanning\<close> still returns without queuing it or registering the rescan.
\<close>

theorem allowlist_substring_counterexample:
  "allowlist (moderateSettings\<lparr>allowlist := Some [js ''www.a.com'']\<rparr>) = Some [js ''www.a.com'']
   \<and> settings allowlistedPage = Some (moderateSettings\<lparr>allowlist := Some [js ''www.a.com'']\<rparr>)
   \<and> \<not> includes (hostname allowlistedPage) (js ''www.a.com'')
   \<and> \<not> isScanning allowlistedPage
   \<and> 3 \<in> set (querySelectorAll textSelectors [] (document allowlistedPage))
   \<and> \<not> settledText allowlistedPage 3
   \<and> startScanning 0 allowlistedPage = (allowlistedPage\<lparr>isScanning := True\<rparr>, None)
   \<and> queued (fst (startScanning 0 allowlistedPage)) = []
   \<and> rescanIntervals (fst (startScanning 0 allowlistedPage)) = 0"
proof -
  have a: "allowlist (moderateSettings\<lparr>allowlist := Some [js ''www.a.com'']\<rparr>) = Some [js ''www.a.com'']"
    by simp
  have b: "\<not> includes (hostname allowlistedPage) (js ''www.a.com'')"
    using sample_not_substring by (simp add: allowlisted_fields(1))
  have c: "3 \<in> set (querySelectorAll textSelectors [] (document allowlistedPage))"
    by (simp add: allowlisted_fields(4) sample_text_query)
  have d: "\<not> settledText allowlistedPage 3"
    using sample_unsettled3
    by (simp add: settledText_def dom_frame [OF allowlisted_fields(4,5)])
  have e: "startScanning 0 allowlistedPage = (allowlistedPage\<lparr>isScanning := True\<rparr>, None)"
    using allowlisted_fields(3) sample_isAllowlisted by (simp add: startScanning_def)
  have f: "queued (fst (startScanning 0 allowlistedPage)) = []"
    by (simp add: e allowlisted_fields)
  have g: "rescanIntervals (fst (startScanning 0 allowlistedPage)) = 0"
    by (simp add: e allowlisted_fields)
  from a allowlisted_fields(2) b allowlisted_fields(3) c d e f g show ?thesis by blast
qed

section \<open>Replacing and revealing\<close>

subsection \<open>Identities in a tree\<close>

lemma ids_subtrees: "map (\<lambda>(a, e, cs). nid e) (subtrees anc t) = nodeIds t"
proof (induction t arbitrary: anc)
  case (Element e cs)
  have "map (\<lambda>c. map (\<lambda>(a, e, cs). nid e) (subtrees (e # anc) c)) cs = map nodeIds cs"
    by (rule map_cong [OF refl]) (rule Element.IH)
  then have "concat (map (\<lambda>c. map (\<lambda>(a, e, cs). nid e) (subtrees (e # anc) c)) cs)
           = concat (map nodeIds cs)"
    by (rule arg_cong)
  then show ?case by (simp add: map_concat o_def)
next
  case (TextNode s)
  show ?case by simp
qed

lemma entry_id_in_ids: "(a, e, cs) \<in> set (subtrees anc t) \<Longrightarrow> nid e \<in> set (nodeIds t)"
proof -
  assume "(a, e, cs) \<in> set (subtrees anc t)"
  then have "(\<lambda>(a, e, cs). nid e) (a, e, cs) \<in> (\<lambda>(a, e, cs). nid e) ` set (subtrees anc t)"
    by (rule imageI)
  then have "nid e \<in> set (map (\<lambda>(a, e, cs). nid e) (subtrees anc t))" by simp
  then show ?thesis by (simp only: ids_subtrees)
qed

lemma nodeId_in_ids: "nodeId c = Some k \<Longrightarrow> k \<in> set (nodeIds c)"
  by (cases c) auto

lemma child_ids: "c \<in> set cs \<Longrightarrow> set (nodeIds c) \<subseteq> set (concat (map nodeIds cs))"
  by auto

lemma removeNode_fresh: "i \<notin> set (nodeIds t) \<Longrightarrow> removeNode i t = t"
proof (induction t)
  case (Element e cs)
  have a: "map (removeNode i) cs = cs"
  proof (rule map_idI)
    fix c assume c: "c \<in> set cs"
    with Element.prems have "i \<notin> set (nodeIds c)" by auto
    with c show "removeNode i c = c" by (rule Element.IH)
  qed
  have b: "filter (\<lambda>c. nodeId c \<noteq> Some i) cs = cs"
  proof (rule filter_True, rule ballI)
    fix c assume c: "c \<in> set cs"
    show "nodeId c \<noteq> Some i"
    proof
      assume "nodeId c = Some i"
      then have "i \<in> set (nodeIds c)" by (rule nodeId_in_ids)
      with c Element.prems show False by auto
    qed
  qed
  from a b show ?case by simp
next
  case (TextNode s)
  show ?case by simp
qed

lemma replaceNode_fresh: "i \<notin> set (nodeIds t) \<Longrightarrow> replaceNode i new t = t"
proof (induction t)
  case (Element e cs)
  have "map (\<lambda>c. if nodeId c = Some i then new else replaceNode i new c) cs = cs"
  proof (rule map_idI)
    fix c assume c: "c \<in> set cs"
    with Element.prems have n: "i \<notin> set (nodeIds c)" by auto
    then have "nodeId c \<noteq> Some i" using nodeId_in_ids by blast
    moreover from c n have "replaceNode i new c = c" by (rule Element.IH)
    ultimately show "(if nodeId c = Some i then new else replaceNode i new c) = c" by simp
  qed
  then show ?case by simp
next
  case (TextNode s)
  show ?case by simp
qed

lemma nodeId_replaceNode [simp]: "nodeId (replaceNode i new t) = nodeId t"
  by (cases t) simp_all

text \<open>Putting the original back where the container stands undoes the replacement.\<close>

lemma replaceNode_roundtrip:
  assumes "n \<notin> set (nodeIds t)" "nodeId C = Some n"
    and "\<forall>(a, e, cs) \<in> set (subtrees anc t). nid e = i \<longrightarrow> Element e cs = S"
  shows "replaceNode n S (replaceNode i C t) = t"
  using assms
proof (induction t arbitrary: anc)
  case (Element e cs)
  have "map (\<lambda>c. if nodeId c = Some n then S else replaceNode n S c)
          (map (\<lambda>c. if nodeId c = Some i then C else replaceNode i C c) cs) = cs"
    unfolding map_map
  proof (rule map_idI)
    fix c assume c: "c \<in> set cs"
    with Element.prems(1) have fresh: "n \<notin> set (nodeIds c)" by auto
    then have nn: "nodeId c \<noteq> Some n" using nodeId_in_ids by blast
    have sub: "set (subtrees (e # anc) c) \<subseteq> set (subtrees anc (Element e cs))"
      using c by auto
    show "((\<lambda>c. if nodeId c = Some n then S else replaceNode n S c)
            \<circ> (\<lambda>c. if nodeId c = Some i then C else replaceNode i C c)) c = c"
    proof (cases "nodeId c = Some i")
      case True
      then obtain ec ccs where ec: "c = Element ec ccs" "nid ec = i" by (cases c) auto
      then have "(e # anc, ec, ccs) \<in> set (subtrees (e # anc) c)" by simp
      with sub have "(e # anc, ec, ccs) \<in> set (subtrees anc (Element e cs))" by blast
      with Element.prems(3) ec(2) have "Element ec ccs = S" by blast
      with True ec Element.prems(2) show ?thesis by simp
    next
      case False
      from sub Element.prems(3)
      have "\<forall>(a, e, cs) \<in> set (subtrees (e # anc) c). nid e = i \<longrightarrow> Element e cs = S" by blast
      from Element.IH [OF c fresh Element.prems(2) this] False nn show ?thesis by simp
    qed
  qed
  then show ?case by simp
next
  case (TextNode s)
  show ?case by simp
qed

lemma replaceNode_removes:
  "nodeId t \<noteq> Some i \<Longrightarrow> i \<notin> set (nodeIds C) \<Longrightarrow> i \<notin> set (nodeIds (replaceNode i C t))"
proof (induction t)
  case (Element e cs)
  have "\<And>c. c \<in> set cs \<Longrightarrow>
          i \<notin> set (nodeIds (if nodeId c = Some i then C else replaceNode i C c))"
    using Element.IH Element.prems(2) by simp
  with Element.prems(1) show ?case by auto
next
  case (TextNode s)
  show ?case by simp
qed

lemma replaceNode_inserts:
  "i \<in> set (nodeIds t) \<Longrightarrow> nodeId t \<noteq> Some i \<Longrightarrow> nodeId C = Some n \<Longrightarrow>
   n \<in> set (nodeIds (replaceNode i C t))"
proof (induction t)
  case (Element e cs)
  from Element.prems(1,2) obtain c where c: "c \<in> set cs" "i \<in> set (nodeIds c)" by auto
  have "n \<in> set (nodeIds (if nodeId c = Some i then C else replaceNode i C c))"
  proof (cases "nodeId c = Some i")
    case True
    with Element.prems(3) show ?thesis by (simp add: nodeId_in_ids)
  next
    case False
    with Element.IH [OF c(1) c(2) False Element.prems(3)] show ?thesis by simp
  qed
  with c(1) have "\<exists>c \<in> set cs. n \<in> set (nodeIds (if nodeId c = Some i then C else replaceNode i C c))"
    by blast
  then show ?case by (simp add: o_def)
next
  case (TextNode s)
  then show ?case by simp
qed

subsection \<open>Looking an element up\<close>

lemma find_append_option:
  "find P (xs @ ys) = (case find P xs of None \<Rightarrow> find P ys | Some x \<Rightarrow> Some x)"
  by (induction xs) auto

lemma find_first: "x \<in> set xs \<Longrightarrow> P x \<Longrightarrow> find P xs \<noteq> None"
  by (auto simp: find_None_iff)

lemma find_absent: "\<forall>x \<in> set xs. \<not> P x \<Longrightarrow> find P xs = None"
  by (auto simp: find_None_iff)

lemma find_mem: "find P xs = Some x \<Longrightarrow> x \<in> set xs \<and> P x"
  by (induction xs) (auto split: if_splits)

lemma entries_ids:
  "map (\<lambda>(a, e, cs). nid e) (concat (map (subtrees []) ts)) = concat (map nodeIds ts)"
  by (simp add: map_concat o_def ids_subtrees)

lemma unique_entry:
  assumes "distinct (allIds p)"
    and "x \<in> set (concat (map (subtrees []) (document p # detached p)))"
    and "y \<in> set (concat (map (subtrees []) (document p # detached p)))"
    and "(\<lambda>(a, e, cs). nid e) x = (\<lambda>(a, e, cs). nid e) y"
  shows "x = y"
proof -
  have "distinct (map (\<lambda>(a, e, cs). nid e) (concat (map (subtrees []) (document p # detached p))))"
    using assms(1) by (simp only: entries_ids allIds_def)
  then have "inj_on (\<lambda>(a, e, cs). nid e) (set (concat (map (subtrees []) (document p # detached p))))"
    by (simp only: distinct_map)
  from this assms(4) assms(2) assms(3) show ?thesis by (rule inj_onD)
qed

lemma lookupElement_mem:
  "lookupElement i p = Some x \<Longrightarrow> x \<in> set (concat (map (subtrees []) (document p # detached p)))"
  unfolding lookupElement_def by (drule find_mem) simp

lemma tree_entries:
  "t \<in> set (document p # detached p) \<Longrightarrow> x \<in> set (subtrees [] t) \<Longrightarrow>
   x \<in> set (concat (map (subtrees []) (document p # detached p)))"
  by auto

lemma tree_ids: "t \<in> set (document p # detached p) \<Longrightarrow> set (nodeIds t) \<subseteq> set (allIds p)"
  by (auto simp: allIds_def)

lemma ancestors_ids:
  "(a, e, cs) \<in> set (subtrees anc t) \<Longrightarrow> set (map nid a) \<subseteq> set (map nid anc) \<union> set (nodeIds t)"
proof (induction t arbitrary: anc)
  case (Element e0 cs0)
  from Element.prems consider "(a, e, cs) = (anc, e0, cs0)"
    | c where "c \<in> set cs0" "(a, e, cs) \<in> set (subtrees (e0 # anc) c)" by auto
  then show ?case
  proof cases
    case 1
    then show ?thesis by auto
  next
    case 2
    from Element.IH [OF 2] have "set (map nid a) \<subseteq> set (map nid (e0 # anc)) \<union> set (nodeIds c)" .
    with 2(1) show ?thesis by auto
  qed
next
  case (TextNode s)
  then show ?case by simp
qed

lemma subtree_ids:
  "(a, e, cs) \<in> set (subtrees anc t) \<Longrightarrow> set (nodeIds (Element e cs)) \<subseteq> set (nodeIds t)"
proof (induction t arbitrary: anc)
  case (Element e0 cs0)
  from Element.prems consider "(a, e, cs) = (anc, e0, cs0)"
    | c where "c \<in> set cs0" "(a, e, cs) \<in> set (subtrees (e0 # anc) c)" by auto
  then show ?case
  proof cases
    case 1
    then show ?thesis by auto
  next
    case 2
    from Element.IH [OF 2] have "set (nodeIds (Element e cs)) \<subseteq> set (nodeIds c)" .
    with 2(1) show ?thesis by auto
  qed
next
  case (TextNode s)
  then show ?case by simp
qed

lemma entry_root:
  "(a, e, cs) \<in> set (subtrees anc t) \<Longrightarrow>
   length anc \<le> length a \<and> (length a = length anc \<longrightarrow> t = Element e cs)"
proof (induction t arbitrary: anc)
  case (Element e0 cs0)
  from Element.prems consider "(a, e, cs) = (anc, e0, cs0)"
    | c where "c \<in> set cs0" "(a, e, cs) \<in> set (subtrees (e0 # anc) c)" by auto
  then show ?case
  proof cases
    case 1
    then show ?thesis by auto
  next
    case 2
    from Element.IH [OF 2] have "length (e0 # anc) \<le> length a" by simp
    then show ?thesis by simp
  qed
next
  case (TextNode s)
  then show ?case by simp
qed

lemma root_id_ne:
  assumes "distinct (allIds p)" "lookupElement i p = Some (a, e, cs)" "a \<noteq> []"
    and t: "t \<in> set (document p # detached p)"
  shows "nodeId t \<noteq> Some i"
proof
  assume "nodeId t = Some i"
  then obtain e' cs' where t': "t = Element e' cs'" "nid e' = i" by (cases t) auto
  then have "([], e', cs') \<in> set (subtrees [] t)" by simp
  with t have m: "([], e', cs') \<in> set (concat (map (subtrees []) (document p # detached p)))"
    by (rule tree_entries)
  from assms(2) have "nid e = i" by (rule lookupElement_nid)
  with t'(2) have "(\<lambda>(a, e, cs). nid e) ([], e', cs') = (\<lambda>(a, e, cs). nid e) (a, e, cs)" by simp
  from unique_entry [OF assms(1) m lookupElement_mem [OF assms(2)] this] assms(3)
  show False by simp
qed

lemma entry_subtree:
  assumes "distinct (allIds p)" "lookupElement i p = Some (a, e, cs)"
    and t: "t \<in> set (document p # detached p)"
  shows "\<forall>(a', e', cs') \<in> set (subtrees [] t). nid e' = i \<longrightarrow> Element e' cs' = Element e cs"
proof (clarify)
  fix a' e' cs'
  assume m: "(a', e', cs') \<in> set (subtrees [] t)" and i: "i = nid e'"
  from t m have m': "(a', e', cs') \<in> set (concat (map (subtrees []) (document p # detached p)))"
    by (rule tree_entries)
  from assms(2) have "nid e = i" by (rule lookupElement_nid)
  with i have "(\<lambda>(a, e, cs). nid e) (a', e', cs') = (\<lambda>(a, e, cs). nid e) (a, e, cs)" by simp
  from unique_entry [OF assms(1) m' lookupElement_mem [OF assms(2)] this]
  show "e' = e \<and> cs' = cs" by simp
qed

lemma replaceNode_entry_new:
  assumes "(a', e', cs') \<in> set (subtrees anc (replaceNode i (Element eC csC) t))"
    and "nid e' = n" "n \<notin> set (nodeIds t)" "n \<notin> set (concat (map nodeIds csC))"
  shows "e' = eC \<and> cs' = csC"
  using assms(1,3)
proof (induction t arbitrary: anc)
  case (Element e0 cs0)
  let ?g = "\<lambda>c. if nodeId c = Some i then Element eC csC else replaceNode i (Element eC csC) c"
  from Element.prems(1) consider "(a', e', cs') = (anc, e0, map ?g cs0)"
    | c where "c \<in> set cs0" "(a', e', cs') \<in> set (subtrees (e0 # anc) (?g c))" by auto
  then show ?case
  proof cases
    case 1
    with assms(2) Element.prems(2) show ?thesis by simp
  next
    case 2
    show ?thesis
    proof (cases "nodeId c = Some i")
      case True
      with 2(2) consider "(a', e', cs') = (e0 # anc, eC, csC)"
        | d where "d \<in> set csC" "(a', e', cs') \<in> set (subtrees (eC # e0 # anc) d)" by auto
      then show ?thesis
      proof cases
        case 1
        then show ?thesis by simp
      next
        case 2
        from 2(2) have "nid e' \<in> set (nodeIds d)" by (rule entry_id_in_ids)
        with 2(1) assms(2,4) show ?thesis by auto
      qed
    next
      case False
      with 2(2) have m: "(a', e', cs') \<in> set (subtrees (e0 # anc) (replaceNode i (Element eC csC) c))"
        by simp
      from 2(1) Element.prems(2) have "n \<notin> set (nodeIds c)" by auto
      from Element.IH [OF 2(1) m this] show ?thesis .
    qed
  qed
next
  case (TextNode s)
  then show ?case by simp
qed

lemma updateElement_fresh: "i \<notin> set (nodeIds t) \<Longrightarrow> updateElement i f t = t"
proof (induction t)
  case (Element e cs)
  have "map (updateElement i f) cs = cs"
  proof (rule map_idI)
    fix c assume c: "c \<in> set cs"
    with Element.prems have "i \<notin> set (nodeIds c)" by auto
    with c show "updateElement i f c = c" by (rule Element.IH)
  qed
  with Element.prems show ?case by (simp add: applyTo_def)
next
  case (TextNode s)
  show ?case by simp
qed

subsection \<open>\<open>replaceChild\<close> there and back\<close>

text \<open>Putting a new detached tree in the place of an element that has a parent.\<close>

lemma replaceChild_in:
  assumes wf: "distinct (allIds p)"
    and lk: "lookupElement i p = Some (a, e, cs)" and par: "a \<noteq> []"
    and fresh: "n \<notin> set (allIds p)"
    and q: "document q = document p" "detached q = detached p @ [Element eC csC]"
    and C: "nid eC = n"
  shows "replaceChild n i q
       = Inr (q\<lparr>document := replaceNode i (Element eC csC) (document p),
                 detached := map (replaceNode i (Element eC csC)) (detached p) @ [Element e cs]\<rparr>)"
proof -
  let ?P = "\<lambda>k. (\<lambda>(a, e, cs). nid e = k)"
  let ?E = "concat (map (subtrees []) (document p # detached p))"
  have ent: "concat (map (subtrees []) (document q # detached q))
           = ?E @ subtrees [] (Element eC csC)"
    by (simp add: q)
  have lki: "find (?P i) ?E = Some (a, e, cs)" using lk by (simp add: lookupElement_def)
  have i: "nid e = i" using lk by (rule lookupElement_nid)
  have mem: "(a, e, cs) \<in> set ?E" using lk by (rule lookupElement_mem)
  then obtain t where t: "t \<in> set (document p # detached p)" "(a, e, cs) \<in> set (subtrees [] t)"
    by auto
  have "\<forall>x \<in> set ?E. \<not> ?P n x"
  proof (clarify)
    fix a' e' cs' assume "(a', e', cs') \<in> set ?E" "n = nid e'"
    then have "n \<in> set (map (\<lambda>(a, e, cs). nid e) ?E)" by force
    with fresh show False by (simp only: entries_ids allIds_def)
  qed
  then have none: "find (?P n) ?E = None" by (rule find_absent)
  have l1: "lookupElement i q = Some (a, e, cs)"
    by (simp only: lookupElement_def ent find_append_option lki option.case)
  have l2: "lookupElement n q = Some ([], eC, csC)"
    by (simp only: lookupElement_def ent find_append_option none option.case) (simp add: C)
  from ancestors_ids [OF t(2)] tree_ids [OF t(1)] fresh
  have na: "n \<notin> set (map nid a)" by auto
  from i mem have "i \<in> set (map (\<lambda>(a, e, cs). nid e) ?E)" by force
  then have "i \<in> set (allIds p)" by (simp only: entries_ids allIds_def)
  with fresh have ne: "n \<noteq> i" by auto
  from subtree_ids [OF t(2)] tree_ids [OF t(1)] fresh
  have "n \<notin> set (nodeIds (Element e cs))" by auto
  then have old: "removeNode n (Element e cs) = Element e cs" by (rule removeNode_fresh)
  have "n \<notin> set (nodeIds (document p))" using fresh by (auto simp: allIds_def)
  then have doc: "removeNode n (document p) = document p" by (rule removeNode_fresh)
  have f: "filter (\<lambda>t. nodeId t \<noteq> Some n) (detached p) = detached p"
  proof (rule filter_True, rule ballI)
    fix t assume t: "t \<in> set (detached p)"
    show "nodeId t \<noteq> Some n"
    proof
      assume "nodeId t = Some n"
      then have "n \<in> set (nodeIds t)" by (rule nodeId_in_ids)
      with t fresh show False by (auto simp: allIds_def)
    qed
  qed
  have m: "map (removeNode n) (detached p) = detached p"
  proof (rule map_idI)
    fix t assume "t \<in> set (detached p)"
    with fresh have "n \<notin> set (nodeIds t)" by (auto simp: allIds_def)
    then show "removeNode n t = t" by (rule removeNode_fresh)
  qed
  have det: "map (removeNode n) (filter (\<lambda>t. nodeId t \<noteq> Some n) (detached q)) = detached p"
    by (simp add: q C f m)
  show ?thesis
    unfolding replaceChild_def
    by (simp only: l1 l2 option.case prod.case par na ne old doc det q(1) Let_def if_False)
qed

text \<open>Putting the element back in the place of the tree that replaced it.\<close>

lemma replaceChild_back:
  assumes wf: "distinct (allIds p)"
    and lk: "lookupElement i p = Some (a, e, cs)" and par: "a \<noteq> []"
    and fresh: "n \<notin> set (allIds p)"
    and C: "nid eC = n" "n \<notin> set (concat (map nodeIds csC))" "i \<notin> set (nodeIds (Element eC csC))"
    and q: "document q = replaceNode i (Element eC csC) (document p)"
           "detached q = map (replaceNode i (Element eC csC)) (detached p) @ [Element e cs]"
  shows "replaceChild i n q
       = Inr (q\<lparr>document := document p, detached := detached p @ [Element eC csC]\<rparr>)"
proof -
  let ?C = "Element eC csC"
  let ?S = "Element e cs"
  let ?R = "replaceNode i ?C"
  let ?P = "\<lambda>k. (\<lambda>(a, e, cs). nid e = k)"
  let ?T = "document p # detached p"
  let ?E1 = "concat (map (subtrees []) (map ?R ?T))"
  have ent: "concat (map (subtrees []) (document q # detached q)) = ?E1 @ subtrees [] ?S"
    by (simp add: q)
  have i: "nid e = i" using lk by (rule lookupElement_nid)
  have mem: "(a, e, cs) \<in> set (concat (map (subtrees []) ?T))" using lk by (rule lookupElement_mem)
  then obtain t0 where t0: "t0 \<in> set ?T" "(a, e, cs) \<in> set (subtrees [] t0)" by auto
  have root: "\<And>t. t \<in> set ?T \<Longrightarrow> nodeId t \<noteq> Some i"
    using root_id_ne [OF wf lk par] .
  have rm: "\<And>t. t \<in> set ?T \<Longrightarrow> i \<notin> set (nodeIds (?R t))"
    using replaceNode_removes [OF root C(3)] .
  have fr: "\<And>t. t \<in> set ?T \<Longrightarrow> n \<notin> set (nodeIds t)"
    using fresh tree_ids by blast
  have Cid: "nodeId ?C = Some n" using C(1) by simp
  have "\<forall>x \<in> set ?E1. \<not> ?P i x"
  proof (rule ballI)
    fix x assume x: "x \<in> set ?E1"
    obtain a' e' cs' where xe: "x = (a', e', cs')" by (cases x)
    from x xe obtain t where t: "t \<in> set ?T" "(a', e', cs') \<in> set (subtrees [] (?R t))" by auto
    from t(2) have "nid e' \<in> set (nodeIds (?R t))" by (rule entry_id_in_ids)
    with rm [OF t(1)] have "nid e' \<noteq> i" by auto
    with xe show "\<not> ?P i x" by simp
  qed
  then have "find (?P i) ?E1 = None" by (rule find_absent)
  then have l1: "lookupElement i q = Some ([], e, cs)"
    by (simp only: lookupElement_def ent find_append_option option.case) (simp add: i)
  from t0(2) have "nid e \<in> set (nodeIds t0)" by (rule entry_id_in_ids)
  with i have "i \<in> set (nodeIds t0)" by simp
  from replaceNode_inserts [OF this root [OF t0(1)] Cid]
  have "n \<in> set (map (\<lambda>(a, e, cs). nid e) (subtrees [] (?R t0)))"
    by (simp only: ids_subtrees)
  then obtain x where x: "x \<in> set (subtrees [] (?R t0))" "?P n x" by auto
  from x(1) t0(1) have "x \<in> set ?E1" by auto
  from this x(2) have "find (?P n) ?E1 \<noteq> None" by (rule find_first)
  then obtain a3 e3 cs3 where f3: "find (?P n) ?E1 = Some (a3, e3, cs3)" by auto
  from find_mem [OF f3] have m3: "(a3, e3, cs3) \<in> set ?E1" and n3: "nid e3 = n" by auto
  from m3 obtain t3 where t3: "t3 \<in> set ?T" "(a3, e3, cs3) \<in> set (subtrees [] (?R t3))" by auto
  from replaceNode_entry_new [OF t3(2) n3 fr [OF t3(1)] C(2)]
  have e3: "e3 = eC" "cs3 = csC" by auto
  have a3: "a3 \<noteq> []"
  proof
    assume "a3 = []"
    with entry_root [OF t3(2)] have "?R t3 = Element e3 cs3" by simp
    then have "nodeId (?R t3) = Some n" using n3 by simp
    then have "nodeId t3 = Some n" by simp
    then have "n \<in> set (nodeIds t3)" by (rule nodeId_in_ids)
    with fr [OF t3(1)] show False by simp
  qed
  from ancestors_ids [OF t3(2)] rm [OF t3(1)]
  have ia: "i \<notin> set (map nid a3)" by auto
  have l2: "lookupElement n q = Some (a3, eC, csC)"
    using f3 e3 by (simp only: lookupElement_def ent find_append_option option.case)
  from mem i have "i \<in> set (map (\<lambda>(a, e, cs). nid e) (concat (map (subtrees []) ?T)))" by force
  then have "i \<in> set (allIds p)" by (simp only: entries_ids allIds_def)
  with fresh have ne: "i \<noteq> n" by auto
  have old: "removeNode i ?C = ?C" using C(3) by (rule removeNode_fresh)
  have doc1: "removeNode i (document q) = document q"
    using rm [of "document p"] by (simp add: q removeNode_fresh)
  have f: "filter (\<lambda>t. nodeId t \<noteq> Some i) (map ?R (detached p)) = map ?R (detached p)"
  proof (rule filter_True, rule ballI)
    fix t assume "t \<in> set (map ?R (detached p))"
    then obtain t' where "t' \<in> set (detached p)" "t = ?R t'" by auto
    with root [of t'] show "nodeId t \<noteq> Some i" by simp
  qed
  have m: "map (removeNode i) (map ?R (detached p)) = map ?R (detached p)"
  proof (rule map_idI)
    fix t assume "t \<in> set (map ?R (detached p))"
    then obtain t' where "t' \<in> set (detached p)" "t = ?R t'" by auto
    with rm [of t'] have "i \<notin> set (nodeIds t)" by simp
    then show "removeNode i t = t" by (rule removeNode_fresh)
  qed
  have det1: "map (removeNode i) (filter (\<lambda>t. nodeId t \<noteq> Some i) (detached q)) = map ?R (detached p)"
  proof -
    have "filter (\<lambda>t. nodeId t \<noteq> Some i) [?S] = []" by (simp add: i)
    then have "filter (\<lambda>t. nodeId t \<noteq> Some i) (detached q) = map ?R (detached p)"
      by (simp only: q(2) filter_append f append_Nil2)
    then show ?thesis by (simp only: m)
  qed
  have rt: "\<And>t. t \<in> set ?T \<Longrightarrow> replaceNode n ?S (?R t) = t"
    using replaceNode_roundtrip [OF fr Cid entry_subtree [OF wf lk]] .
  have doc2: "replaceNode n ?S (document q) = document p"
    using rt [of "document p"] by (simp add: q(1))
  have det2: "map (replaceNode n ?S) (map ?R (detached p)) = detached p"
    unfolding map_map
  proof (rule map_idI)
    fix t assume "t \<in> set (detached p)"
    then show "(replaceNode n ?S \<circ> ?R) t = t" using rt [of t] by simp
  qed
  show ?thesis
    unfolding replaceChild_def
    by (simp only: l1 l2 option.case prod.case a3 ia ne old doc1 det1 doc2 det2 Let_def if_False)
qed

lemma replacementContainer_ids:
  "nodeIds (replacementContainer n type r) = [n, n + 1, n + 2, n + 3, n + 4, n + 5, n + 6]"
  by (simp add: replacementContainer_def blankElement_def Let_def)

lemma replacementContainer_root:
  obtains eC csC where "replacementContainer n type r = Element eC csC" "nid eC = n"
    "concat (map nodeIds csC) = [n + 1, n + 2, n + 3, n + 4, n + 5, n + 6]"
proof -
  obtain eC csC where C: "replacementContainer n type r = Element eC csC"
    by (cases "replacementContainer n type r") (simp_all add: replacementContainer_def Let_def)
  from replacementContainer_ids [of n type r] C
  have "nid eC = n" "concat (map nodeIds csC) = [n + 1, n + 2, n + 3, n + 4, n + 5, n + 6]"
    by simp_all
  with C show ?thesis by (rule that)
qed

lemma updatePage_fields [simp]:
  "hostname (updatePage j f p) = hostname p"
  "settings (updatePage j f p) = settings p"
  "scanQueue (updatePage j f p) = scanQueue p"
  "queued (updatePage j f p) = queued p"
  "outbox (updatePage j f p) = outbox p"
  "replacementElements (updatePage j f p) = replacementElements p"
  "nextId (updatePage j f p) = nextId p"
  "clickListeners (updatePage j f p) = clickListeners p"
  by (simp_all add: updatePage_def)

text \<open>
  Replacing an element that has a parent and revealing it again: the trees are those of
  the page before, with the class \<open>ai-firewall-safe\<close> on the element and the container
  left detached.
\<close>

lemma replace_reveal_dom:
  fixes type :: contentType and r :: analysisResult
  assumes wf: "wellFormed p"
    and lk: "lookupElement el p = Some (a, e, cs)" and par: "a \<noteq> []"
  defines "n \<equiv> nextId p"
  defines "C \<equiv> replacementContainer (nextId p) type r"
  defines "p1 \<equiv> fst (replaceContent el type r p)"
  defines "p2 \<equiv> fst (showOriginalContent True (nextId p) el (fst (replaceContent el type r p)))"
  shows "snd (replaceContent el type r p) = None"
    and "document p1 = replaceNode el C (document p)"
    and "detached p1 = map (replaceNode el C) (detached p) @ [Element e cs]"
    and "snd (showOriginalContent True n el p1) = None"
    and "document p2 = document (classList_add el ''ai-firewall-safe'' p)"
    and "detached p2 = detached (classList_add el ''ai-firewall-safe'' p) @ [C]"
    and "queued p2 = queued p"
    and "scanQueue p2 = scanQueue p"
    and "blockedElements p2 = blockedElements p - {el}"
    and "map_get n (replacementElements p2) = None"
proof -
  obtain eC csC where C': "C = Element eC csC" and Cn: "nid eC = n"
    and Cc: "concat (map nodeIds csC) = [n + 1, n + 2, n + 3, n + 4, n + 5, n + 6]"
    unfolding C_def n_def by (rule replacementContainer_root)
  from wf have dist: "distinct (allIds p)" and below: "\<forall>i \<in> set (allIds p). i < n"
    by (simp_all add: wellFormed_def n_def)
  from below have fresh: "n \<notin> set (allIds p)" by auto
  have "nid e = el" using lk by (rule lookupElement_nid)
  moreover have "(a, e, cs) \<in> set (concat (map (subtrees []) (document p # detached p)))"
    using lk by (rule lookupElement_mem)
  ultimately have "el \<in> set (map (\<lambda>(a, e, cs). nid e) (concat (map (subtrees []) (document p # detached p))))"
    by force
  then have "el \<in> set (allIds p)" by (simp only: entries_ids allIds_def)
  with below have lt: "el < n" by simp
  from Cn Cc lt have elC: "el \<notin> set (nodeIds (Element eC csC))" by simp
  from Cc have nC: "n \<notin> set (concat (map nodeIds csC))" by simp
  define q where "q = (snd (createReplacementElement el type r p))
                        \<lparr>replacementElements := map_set n el (replacementElements (snd (createReplacementElement el type r p)))\<rparr>"
  have q: "document q = document p" "detached q = detached p @ [Element eC csC]"
    using C' by (simp_all add: q_def createReplacementElement_def Let_def C_def)
  have step1: "replaceChild n el q
       = Inr (q\<lparr>document := replaceNode el (Element eC csC) (document p),
                 detached := map (replaceNode el (Element eC csC)) (detached p) @ [Element e cs]\<rparr>)"
    using dist lk par fresh q Cn by (rule replaceChild_in)
  have rc: "replaceContent el type r p
       = (q\<lparr>document := replaceNode el (Element eC csC) (document p),
             detached := map (replaceNode el (Element eC csC)) (detached p) @ [Element e cs]\<rparr>, None)"
    using step1 by (simp add: replaceContent_def createReplacementElement_def Let_def q_def n_def)
  show "snd (replaceContent el type r p) = None" by (simp add: rc)
  show d1: "document p1 = replaceNode el C (document p)" by (simp add: p1_def rc C')
  show t1: "detached p1 = map (replaceNode el C) (detached p) @ [Element e cs]"
    by (simp add: p1_def rc C')
  have step2: "replaceChild el n p1
       = Inr (p1\<lparr>document := document p, detached := detached p @ [Element eC csC]\<rparr>)"
    using dist lk par fresh Cn nC elC d1 [unfolded C'] t1 [unfolded C'] by (rule replaceChild_back)
  define p4 where "p4 = p1\<lparr>document := document p, detached := detached p @ [Element eC csC]\<rparr>"
  have so: "showOriginalContent True n el p1
       = ((classList_add el ''ai-firewall-safe'' p4)
            \<lparr>replacementElements := map_delete n (replacementElements p4),
              blockedElements := blockedElements p4 - {el}\<rparr>, None)"
    by (simp add: showOriginalContent_def step2 Let_def p4_def classList_add_def)
  show "snd (showOriginalContent True n el p1) = None" by (simp add: so)
  have p2: "p2 = (classList_add el ''ai-firewall-safe'' p4)
            \<lparr>replacementElements := map_delete n (replacementElements p4),
              blockedElements := blockedElements p4 - {el}\<rparr>"
    using so by (simp add: p2_def p1_def n_def)
  have keepC: "updateElement el f (Element eC csC) = Element eC csC" for f
    using elC by (rule updateElement_fresh)
  show "document p2 = document (classList_add el ''ai-firewall-safe'' p)"
    by (simp add: p2 classList_add_def updatePage_def p4_def)
  show "detached p2 = detached (classList_add el ''ai-firewall-safe'' p) @ [C]"
    using keepC by (simp add: p2 classList_add_def updatePage_def p4_def C' del: updateElement.simps)
  have f1: "queued p1 = queued p" "scanQueue p1 = scanQueue p" "blockedElements p1 = blockedElements p"
    "replacementElements p1 = map_set n el (replacementElements p)"
    by (simp_all add: p1_def rc q_def createReplacementElement_def Let_def)
  show "queued p2 = queued p" by (simp add: p2 classList_add_def p4_def f1)
  show "scanQueue p2 = scanQueue p" by (simp add: p2 classList_add_def p4_def f1)
  show "blockedElements p2 = blockedElements p - {el}"
    by (simp add: p2 classList_add_def p4_def f1)
  show "map_get n (replacementElements p2) = None"
    by (simp add: p2 p4_def f1 map_get_map_delete_same)
qed

subsection \<open>The revealed element and discovery\<close>

lemma lookupElement_more_detached:
  assumes "document q = document p" "detached q = detached p @ ts" "lookupElement i p = Some x"
  shows "lookupElement i q = Some x"
proof -
  have "concat (map (subtrees []) (document q # detached q))
      = concat (map (subtrees []) (document p # detached p)) @ concat (map (subtrees []) ts)"
    by (simp add: assms(1,2))
  with assms(3) show ?thesis
    by (simp only: lookupElement_def find_append_option option.case)
qed

lemma closest_safe:
  assumes "lookupElement el p = Some (a, e, cs)" "''ai-firewall-safe'' \<in> set (classList e)"
  shows "closest ignoreSelectors el p"
  using assms
  by (simp add: closest_def matchesAny_def matches_def matchesSimple_def ignoreSelectors_def)

lemma lookupElement_classList_add:
  "lookupElement i (classList_add j c p)
     = map_option (\<lambda>(a, e, cs).
         (map (applyTo j (\<lambda>e. if c \<in> set (classList e) then e else e\<lparr>classList := classList e @ [c]\<rparr>)) a,
          applyTo j (\<lambda>e. if c \<in> set (classList e) then e else e\<lparr>classList := classList e @ [c]\<rparr>) e,
          map (updateElement j (\<lambda>e. if c \<in> set (classList e) then e else e\<lparr>classList := classList e @ [c]\<rparr>)) cs))
         (lookupElement i p)"
  unfolding classList_add_def by (rule lookupElement_updatePage) simp

lemma revealed_ignored:
  assumes lk: "lookupElement el p = Some (a, e, cs)"
    and q: "document q = document (classList_add el ''ai-firewall-safe'' p)"
           "detached q = detached (classList_add el ''ai-firewall-safe'' p) @ ts"
  shows "closest ignoreSelectors el q"
proof -
  let ?f = "\<lambda>e. if ''ai-firewall-safe'' \<in> set (classList e) then e
                 else e\<lparr>classList := classList e @ [''ai-firewall-safe'']\<rparr>"
  have el: "nid e = el" using lk by (rule lookupElement_nid)
  have "lookupElement el (classList_add el ''ai-firewall-safe'' p)
      = Some (map (applyTo el ?f) a, applyTo el ?f e, map (updateElement el ?f) cs)"
    by (simp only: lookupElement_classList_add lk option.map prod.case)
  from lookupElement_more_detached [OF q this]
  have l: "lookupElement el q = Some (map (applyTo el ?f) a, applyTo el ?f e, map (updateElement el ?f) cs)" .
  have "''ai-firewall-safe'' \<in> set (classList (applyTo el ?f e))"
    using el by (simp add: applyTo_def)
  with l show ?thesis by (rule closest_safe)
qed

lemma closest_ignore_mark:
  "closest ignoreSelectors el (setAttribute j ''data-ai-firewall-processed'' v p)
     = closest ignoreSelectors el p"
  by (rule closest_setAttribute [OF plain_ignoreSelectors [unfolded plainSelectors_def]]) simp

lemma processQueue_keeps:
  "queued (processQueue p) = queued p"
  "closest ignoreSelectors el (processQueue p) = closest ignoreSelectors el p"
proof -
  show "queued (processQueue p) = queued p"
    by (simp add: processQueue_def Let_def analyzeText_begin_fields
             split: list.splits queueItem.splits)
  show "closest ignoreSelectors el (processQueue p) = closest ignoreSelectors el p"
  proof (cases "scanQueue p")
    case Nil
    then show ?thesis by (simp add: processQueue_def)
  next
    case (Cons item rest)
    let ?p2 = "setAttribute (itemElement item) ''data-ai-firewall-processed'' ''true'' (p\<lparr>scanQueue := rest\<rparr>)"
    have a: "closest ignoreSelectors el ?p2 = closest ignoreSelectors el p"
      using dom_frame(2) [of "p\<lparr>scanQueue := rest\<rparr>" p ignoreSelectors el]
      by (simp add: closest_ignore_mark)
    show ?thesis
    proof (cases item)
      case (TextItem x content t)
      have "closest ignoreSelectors el (analyzeText_begin x content ?p2) = closest ignoreSelectors el ?p2"
        by (rule dom_frame(2) [OF analyzeText_begin_fields(1) analyzeText_begin_fields(2)])
      with a Cons TextItem show ?thesis by (simp add: processQueue_def Let_def)
    next
      case (ImageItem x t)
      with a Cons show ?thesis by (simp add: processQueue_def Let_def)
    qed
  qed
qed

lemma discover_cases:
  assumes ign: "shouldIgnoreElement el p"
  shows "discover t p v = p
       \<or> (\<exists>x sq. x \<noteq> el
              \<and> discover t p v = processQueue (p\<lparr>scanQueue := sq, queued := queued p @ [x]\<rparr>))"
proof (cases v)
  case (VisitText x)
  show ?thesis
  proof (cases "settledText p x")
    case True
    then have "scanTextElement t p x = p" by (rule scanTextElement_settled)
    with VisitText show ?thesis by simp
  next
    case False
    with ign have ne: "x \<noteq> el" by (auto simp: settledText_def)
    from False have "scanTextElement t p x
        = processQueue (p\<lparr>scanQueue := scanQueue p @ [TextItem x (extractText x p) t],
                            queued := queued p @ [x]\<rparr>)"
      by (simp add: settledText_def scanTextElement_def queueTextAnalysis_def Let_def)
    with ne VisitText show ?thesis by auto
  qed
next
  case (VisitImage x)
  show ?thesis
  proof (cases "settledImage p x")
    case True
    then have "scanImageElement t p x = p" by (rule scanImageElement_settled)
    with VisitImage show ?thesis by simp
  next
    case False
    with ign have ne: "x \<noteq> el" by (auto simp: settledImage_def)
    from False have "scanImageElement t p x
        = processQueue (p\<lparr>scanQueue := scanQueue p @ [ImageItem x t], queued := queued p @ [x]\<rparr>)"
      by (simp add: settledImage_def scanImageElement_def queueImageAnalysis_def)
    with ne VisitImage show ?thesis by auto
  qed
qed

lemma discover_keeps_ignored:
  assumes ig: "closest ignoreSelectors el p"
  shows "closest ignoreSelectors el (discover t p v)"
    and "\<exists>more. queued (discover t p v) = queued p @ more \<and> el \<notin> set more"
proof -
  from ig have ign: "shouldIgnoreElement el p" by (simp add: shouldIgnoreElement_def)
  from discover_cases [OF ign, of t v]
  consider "discover t p v = p"
    | x sq where "x \<noteq> el"
        "discover t p v = processQueue (p\<lparr>scanQueue := sq, queued := queued p @ [x]\<rparr>)"
    by blast
  then have "closest ignoreSelectors el (discover t p v)
           \<and> (\<exists>more. queued (discover t p v) = queued p @ more \<and> el \<notin> set more)"
  proof cases
    case 1
    have "queued p = queued p @ [] \<and> el \<notin> set []" by simp
    then have "\<exists>more. queued p = queued p @ more \<and> el \<notin> set more" by (rule exI)
    with ig 1 show ?thesis by simp
  next
    case 2
    let ?q = "p\<lparr>scanQueue := sq, queued := queued p @ [x]\<rparr>"
    have "closest ignoreSelectors el ?q = closest ignoreSelectors el p"
      by (rule dom_frame(2)) simp_all
    with ig have a: "closest ignoreSelectors el (processQueue ?q)"
      by (simp only: processQueue_keeps(2))
    have "queued (processQueue ?q) = queued p @ [x] \<and> el \<notin> set [x]"
      using 2(1) by (simp add: processQueue_keeps(1))
    then have "\<exists>more. queued (processQueue ?q) = queued p @ more \<and> el \<notin> set more" by (rule exI)
    with a 2(2) show ?thesis by simp
  qed
  then show "closest ignoreSelectors el (discover t p v)"
    and "\<exists>more. queued (discover t p v) = queued p @ more \<and> el \<notin> set more" by blast+
qed

lemma visits_keep_ignored:
  "closest ignoreSelectors el p \<Longrightarrow>
   \<exists>more. queued (foldl (\<lambda>q (t, v). discover t q v) p visits) = queued p @ more \<and> el \<notin> set more"
proof (induction visits arbitrary: p)
  case Nil
  have "queued p = queued p @ [] \<and> el \<notin> set []" by simp
  then have "\<exists>more. queued p = queued p @ more \<and> el \<notin> set more" by (rule exI)
  then show ?case by simp
next
  case (Cons tv visits)
  obtain t v where tv: "tv = (t, v)" by (cases tv)
  from discover_keeps_ignored(2) [OF Cons.prems, of t v]
  obtain m1 where m1: "queued (discover t p v) = queued p @ m1" "el \<notin> set m1" by blast
  from Cons.IH [OF discover_keeps_ignored(1) [OF Cons.prems, of t v]]
  obtain m2 where m2: "queued (foldl (\<lambda>q (t, v). discover t q v) (discover t p v) visits)
                        = queued (discover t p v) @ m2" "el \<notin> set m2" by blast
  from m1 m2 have "queued (foldl (\<lambda>q (t, v). discover t q v) p (tv # visits)) = queued p @ (m1 @ m2)
                 \<and> el \<notin> set (m1 @ m2)"
    by (simp add: tv)
  then show ?case by blast
qed

lemma distinct_child: "distinct (concat (map nodeIds cs)) \<Longrightarrow> c \<in> set cs \<Longrightarrow> distinct (nodeIds c)"
  by (auto simp: distinct_concat_iff)

lemma entry_not_own_ancestor:
  "(a, e, cs) \<in> set (subtrees anc t) \<Longrightarrow> distinct (map nid anc @ nodeIds t) \<Longrightarrow>
   nid e \<notin> set (map nid a)"
proof (induction t arbitrary: anc)
  case (Element e0 cs0)
  from Element.prems(1) consider "(a, e, cs) = (anc, e0, cs0)"
    | c where "c \<in> set cs0" "(a, e, cs) \<in> set (subtrees (e0 # anc) c)" by auto
  then show ?case
  proof cases
    case 1
    with Element.prems(2) show ?thesis by auto
  next
    case 2
    from Element.prems(2) have d: "distinct (map nid anc)" "nid e0 \<notin> set (map nid anc)"
      "distinct (concat (map nodeIds cs0))" "nid e0 \<notin> set (concat (map nodeIds cs0))"
      "set (map nid anc) \<inter> set (concat (map nodeIds cs0)) = {}"
      by auto
    from 2(1) have sub: "set (nodeIds c) \<subseteq> set (concat (map nodeIds cs0))" by auto
    from d(3) 2(1) have "distinct (nodeIds c)" by (rule distinct_child)
    with d sub have "distinct (map nid (e0 # anc) @ nodeIds c)" by auto
    from Element.IH [OF 2 this] show ?thesis .
  qed
next
  case (TextNode s)
  then show ?case by simp
qed

lemma entry_distinct:
  "(a, e, cs) \<in> set (subtrees anc t) \<Longrightarrow> distinct (nodeIds t) \<Longrightarrow>
   distinct (nodeIds (Element e cs))"
proof (induction t arbitrary: anc)
  case (Element e0 cs0)
  from Element.prems(1) consider "(a, e, cs) = (anc, e0, cs0)"
    | c where "c \<in> set cs0" "(a, e, cs) \<in> set (subtrees (e0 # anc) c)" by auto
  then show ?case
  proof cases
    case 1
    with Element.prems(2) show ?thesis by simp
  next
    case 2
    from Element.prems(2) have "distinct (concat (map nodeIds cs0))" by simp
    from this 2(1) have "distinct (nodeIds c)" by (rule distinct_child)
    from Element.IH [OF 2 this] show ?thesis .
  qed
next
  case (TextNode s)
  then show ?case by simp
qed

lemma tree_distinct:
  "distinct (allIds p) \<Longrightarrow> t \<in> set (document p # detached p) \<Longrightarrow> distinct (nodeIds t)"
  unfolding allIds_def by (auto simp: distinct_concat_iff)

text \<open>Writing a property of an element changes neither its ancestors nor its children.\<close>

lemma update_own_entry:
  assumes dist: "distinct (allIds p)" and lk: "lookupElement el p = Some (a, e, cs)"
  shows "map (applyTo el f) a = a" and "map (updateElement el f) cs = cs"
proof -
  have el: "nid e = el" using lk by (rule lookupElement_nid)
  from lookupElement_mem [OF lk]
  obtain t where t: "t \<in> set (document p # detached p)" "(a, e, cs) \<in> set (subtrees [] t)"
    by auto
  from dist t(1) have dt: "distinct (nodeIds t)" by (rule tree_distinct)
  then have "distinct (map nid [] @ nodeIds t)" by simp
  from entry_not_own_ancestor [OF t(2) this] el have na: "el \<notin> set (map nid a)" by simp
  show "map (applyTo el f) a = a"
  proof (rule map_idI)
    fix x assume "x \<in> set a"
    with na have "nid x \<noteq> el" by auto
    then show "applyTo el f x = x" by (simp add: applyTo_def)
  qed
  from entry_distinct [OF t(2) dt] el have nc: "el \<notin> set (concat (map nodeIds cs))" by simp
  show "map (updateElement el f) cs = cs"
  proof (rule map_idI)
    fix c assume "c \<in> set cs"
    with nc have "el \<notin> set (nodeIds c)" by auto
    then show "updateElement el f c = c" by (rule updateElement_fresh)
  qed
qed

lemma replace_reveal_lookup:
  fixes type :: contentType and r :: analysisResult
  assumes wf: "wellFormed p"
    and lk: "lookupElement el p = Some (a, e, cs)" and par: "a \<noteq> []"
  defines "p2 \<equiv> fst (showOriginalContent True (nextId p) el (fst (replaceContent el type r p)))"
  shows "lookupElement el p2
       = Some (a, if ''ai-firewall-safe'' \<in> set (classList e) then e
                  else e\<lparr>classList := classList e @ [''ai-firewall-safe'']\<rparr>, cs)"
    and "closest ignoreSelectors el p2"
proof -
  let ?f = "\<lambda>e. if ''ai-firewall-safe'' \<in> set (classList e) then e
                 else e\<lparr>classList := classList e @ [''ai-firewall-safe'']\<rparr>"
  from wf have dist: "distinct (allIds p)" by (simp add: wellFormed_def)
  have el: "nid e = el" using lk by (rule lookupElement_nid)
  have d: "document p2 = document (classList_add el ''ai-firewall-safe'' p)"
    unfolding p2_def using wf lk par by (rule replace_reveal_dom(5))
  have t: "detached p2 = detached (classList_add el ''ai-firewall-safe'' p)
                           @ [replacementContainer (nextId p) type r]"
    unfolding p2_def using wf lk par by (rule replace_reveal_dom(6))
  have "lookupElement el (classList_add el ''ai-firewall-safe'' p)
      = Some (map (applyTo el ?f) a, applyTo el ?f e, map (updateElement el ?f) cs)"
    by (simp only: lookupElement_classList_add lk option.map prod.case)
  then have "lookupElement el (classList_add el ''ai-firewall-safe'' p) = Some (a, ?f e, cs)"
    using el by (simp only: update_own_entry [OF dist lk]) (simp add: applyTo_def)
  from lookupElement_more_detached [OF d t this]
  show "lookupElement el p2 = Some (a, ?f e, cs)" .
  from lk d t show "closest ignoreSelectors el p2" by (rule revealed_ignored)
qed

lemma replaceChild_keeps:
  assumes "replaceChild new old p = Inr q"
  shows "clickListeners q = clickListeners p" and "replacementElements q = replacementElements p"
  using assms
  by (auto simp: replaceChild_def Let_def split: option.splits if_splits)

lemma replaceContent_registers:
  "clickListeners (fst (replaceContent el type r p))
     = clickListeners p @ [(nextId p, ReplacementActions (nextId p) el type)]"
  "replacementElements (fst (replaceContent el type r p))
     = map_set (nextId p) el (replacementElements p)"
  by (auto simp: replaceContent_def createReplacementElement_def Let_def
           dest: replaceChild_keeps split: sum.splits)

lemma sample_wellFormed: "wellFormed samplePage"
  by (simp add: wellFormed_def allIds_def samplePage_def blankElement_def)

lemma sample_nextId: "nextId samplePage = 5"
  by (simp add: samplePage_def)

text \<open>
  C7, as the code has it.  Let the page be well formed (no node identity occurs twice,
  and all are below the next one to be given) and let the element \<open>el\<close> have a parent.
  \<open>replaceContent\<close> then puts the container it creates, with the identity \<open>nextId p\<close>,
  where the element was, and registers the click listener that calls
  \<open>showOriginalContent\<close> with the container and the element; neither call throws.  After
  the confirmed reveal the trees of the page are those from before the replacement, with
  \<open>classList.add('ai-firewall-safe')\<close> done on the element, and the container is left
  detached: the element stands under the same ancestors with the same children, and
  differs from its former state in that class and in nothing else.  The element is then
  ignored by discovery, and whatever visits of discovery follow, at whatever times, none
  of them queues it: everything they add to the record of queued elements is another
  element.
\<close>

theorem replace_then_reveal_restores_with_safe_mark:
  fixes type :: contentType and r :: analysisResult
  assumes "wellFormed p" and "lookupElement el p = Some (a, e, cs)" and "a \<noteq> []"
  defines "replaced \<equiv> fst (replaceContent el type r p)"
  defines "revealed \<equiv> fst (showOriginalContent True (nextId p) el (fst (replaceContent el type r p)))"
  shows "snd (replaceContent el type r p) = None
       \<and> document replaced = replaceNode el (replacementContainer (nextId p) type r) (document p)
       \<and> clickListeners replaced
           = clickListeners p @ [(nextId p, ReplacementActions (nextId p) el type)]
       \<and> snd (showOriginalContent True (nextId p) el replaced) = None
       \<and> document revealed = document (classList_add el ''ai-firewall-safe'' p)
       \<and> detached revealed
           = detached (classList_add el ''ai-firewall-safe'' p)
               @ [replacementContainer (nextId p) type r]
       \<and> lookupElement el revealed
           = Some (a, if ''ai-firewall-safe'' \<in> set (classList e) then e
                      else e\<lparr>classList := classList e @ [''ai-firewall-safe'']\<rparr>, cs)
       \<and> shouldIgnoreElement el revealed
       \<and> (\<forall>visits. \<exists>more.
             queued (foldl (\<lambda>q (t, v). discover t q v) revealed visits) = queued p @ more
             \<and> el \<notin> set more)"
proof -
  note dom = replace_reveal_dom [OF assms(1-3), of type r, folded replaced_def revealed_def]
  note look = replace_reveal_lookup [OF assms(1-3), of type r, folded revealed_def]
  have 1: "snd (replaceContent el type r p) = None" by (rule dom(1))
  have 2: "document replaced = replaceNode el (replacementContainer (nextId p) type r) (document p)"
    by (rule dom(2))
  have 3: "clickListeners replaced
         = clickListeners p @ [(nextId p, ReplacementActions (nextId p) el type)]"
    unfolding replaced_def by (rule replaceContent_registers(1))
  have 4: "snd (showOriginalContent True (nextId p) el replaced) = None" by (rule dom(4))
  have 5: "document revealed = document (classList_add el ''ai-firewall-safe'' p)" by (rule dom(5))
  have 6: "detached revealed = detached (classList_add el ''ai-firewall-safe'' p)
             @ [replacementContainer (nextId p) type r]" by (rule dom(6))
  have 7: "lookupElement el revealed
         = Some (a, if ''ai-firewall-safe'' \<in> set (classList e) then e
                    else e\<lparr>classList := classList e @ [''ai-firewall-safe'']\<rparr>, cs)"
    by (rule look(1))
  have 8: "shouldIgnoreElement el revealed" using look(2) by (simp add: shouldIgnoreElement_def)
  have 9: "\<forall>visits. \<exists>more.
             queued (foldl (\<lambda>q (t, v). discover t q v) revealed visits) = queued p @ more
             \<and> el \<notin> set more"
  proof
    fix visits
    from visits_keep_ignored [OF look(2), of visits]
    show "\<exists>more. queued (foldl (\<lambda>q (t, v). discover t q v) revealed visits) = queued p @ more
                  \<and> el \<notin> set more"
      by (simp only: dom(7))
  qed
  from 1 2 3 4 5 6 7 8 9 show ?thesis by (intro conjI)
qed

text \<open>
  On the sample page: the paragraph 3 is replaced, with the container 5, and revealed.
\<close>

theorem replace_then_reveal_restores_with_safe_mark_witness:
  "wellFormed samplePage
   \<and> lookupElement 3 samplePage
       = Some ([blankElement 2 ''body'', blankElement 1 ''html'', blankElement 0 ''#document''],
               blankElement 3 ''p'', [TextNode (js ''hello world'')])
   \<and> snd (replaceContent 3 TextType unsafeVerdict samplePage) = None
   \<and> snd (showOriginalContent True 5 3 replacedPage) = None
   \<and> document revealedPage = document (classList_add 3 ''ai-firewall-safe'' samplePage)
   \<and> lookupElement 3 revealedPage
       = Some ([blankElement 2 ''body'', blankElement 1 ''html'', blankElement 0 ''#document''],
               (blankElement 3 ''p'')\<lparr>classList := [''ai-firewall-safe'']\<rparr>,
               [TextNode (js ''hello world'')])
   \<and> shouldIgnoreElement 3 revealedPage
   \<and> 3 \<notin> set (queued (foldl (\<lambda>q (t, v). discover t q v) revealedPage
                              [(1, VisitText 3), (2, VisitImage 3), (3, VisitText 3)]))"
proof -
  have ne: "[blankElement 2 ''body'', blankElement 1 ''html'', blankElement 0 ''#document''] \<noteq> []"
    by simp
  note t = replace_then_reveal_restores_with_safe_mark
             [OF sample_wellFormed sample_lookup3 ne, of TextType unsafeVerdict,
              unfolded sample_nextId, folded replacedPage_def, folded revealedPage_def]
  have q: "queued samplePage = []" by (simp add: samplePage_def)
  have c: "classList (blankElement 3 ''p'') = []" by (simp add: blankElement_def)
  from t have a: "snd (replaceContent 3 TextType unsafeVerdict samplePage) = None"
    by (elim conjE)
  from t have b: "snd (showOriginalContent True 5 3 replacedPage) = None"
    by (elim conjE)
  from t have d: "document revealedPage = document (classList_add 3 ''ai-firewall-safe'' samplePage)"
    by (elim conjE)
  from t have l: "lookupElement 3 revealedPage
       = Some ([blankElement 2 ''body'', blankElement 1 ''html'', blankElement 0 ''#document''],
               if ''ai-firewall-safe'' \<in> set (classList (blankElement 3 ''p'')) then blankElement 3 ''p''
               else (blankElement 3 ''p'')\<lparr>classList := classList (blankElement 3 ''p'') @ [''ai-firewall-safe'']\<rparr>,
               [TextNode (js ''hello world'')])"
    by (elim conjE)
  from t have i: "shouldIgnoreElement 3 revealedPage"
    by (elim conjE)
  from t have v: "\<forall>visits. \<exists>more.
             queued (foldl (\<lambda>q (t, v). discover t q v) revealedPage visits) = queued samplePage @ more
             \<and> 3 \<notin> set more"
    by (elim conjE)
  from l have l': "lookupElement 3 revealedPage
       = Some ([blankElement 2 ''body'', blankElement 1 ''html'', blankElement 0 ''#document''],
               (blankElement 3 ''p'')\<lparr>classList := [''ai-firewall-safe'']\<rparr>,
               [TextNode (js ''hello world'')])"
    by (simp add: c)
  from v have "\<exists>more. queued (foldl (\<lambda>q (t, v). discover t q v) revealedPage
                        [(1, VisitText 3), (2, VisitImage 3), (3, VisitText 3)]) = queued samplePage @ more
              \<and> 3 \<notin> set more"
    by (rule spec)
  then have v': "3 \<notin> set (queued (foldl (\<lambda>q (t, v). discover t q v) revealedPage
                              [(1, VisitText 3), (2, VisitImage 3), (3, VisitText 3)]))"
    by (auto simp: q)
  from sample_wellFormed sample_lookup3 a b d l' i v' show ?thesis by (intro conjI)
qed

text \<open>
  C7 as stated fails: the paragraph had no class before it was blocked, and after the
  reveal it carries the class \<open>ai-firewall-safe\<close>, so the document is not the one from
  before the replacement.
\<close>

theorem reveal_adds_safe_class_counterexample:
  "lookupElement 3 samplePage
     = Some ([blankElement 2 ''body'', blankElement 1 ''html'', blankElement 0 ''#document''],
             blankElement 3 ''p'', [TextNode (js ''hello world'')])
   \<and> lookupElement 3 revealedPage
       = Some ([blankElement 2 ''body'', blankElement 1 ''html'', blankElement 0 ''#document''],
               (blankElement 3 ''p'')\<lparr>classList := [''ai-firewall-safe'']\<rparr>,
               [TextNode (js ''hello world'')])
   \<and> classList (blankElement 3 ''p'') = []
   \<and> document revealedPage \<noteq> document samplePage"
proof -
  have ne: "[blankElement 2 ''body'', blankElement 1 ''html'', blankElement 0 ''#document''] \<noteq> []"
    by simp
  have c: "classList (blankElement 3 ''p'') = []" by (simp add: blankElement_def)
  from replace_reveal_lookup(1) [OF sample_wellFormed sample_lookup3 ne, of TextType unsafeVerdict]
  have l: "lookupElement 3 revealedPage
       = Some ([blankElement 2 ''body'', blankElement 1 ''html'', blankElement 0 ''#document''],
               (blankElement 3 ''p'')\<lparr>classList := [''ai-firewall-safe'']\<rparr>,
               [TextNode (js ''hello world'')])"
    by (simp add: c sample_nextId revealedPage_def replacedPage_def)
  from replace_reveal_dom(5) [OF sample_wellFormed sample_lookup3 ne, of TextType unsafeVerdict]
  have "document revealedPage = document (classList_add 3 ''ai-firewall-safe'' samplePage)"
    by (simp add: sample_nextId revealedPage_def replacedPage_def)
  moreover have "document (classList_add 3 ''ai-firewall-safe'' samplePage) \<noteq> document samplePage"
    by (simp add: classList_add_def updatePage_def samplePage_def applyTo_def blankElement_def)
  ultimately have d: "document revealedPage \<noteq> document samplePage" by simp
  from sample_lookup3 l c d show ?thesis by (intro conjI)
qed

end
